theory Spec2Isabelle
  imports Main
begin

section \<open>Python values, strings and the configuration dictionary\<close>

text \<open>
  The values main.py stores in its configuration dictionary: \<open>None\<close>, a string or an
  integer (the defaults 10 and 100). Characters are code points below 256.
\<close>

datatype pyval = PNone | PStr string | PInt int

datatype error =
    Exception string
  | SystemExit
  | CalledProcessError
  | TypeError
  | IndexError
  | KeyError string
  | AttributeError
  | ConfigurationError
  | AlreadyRunningError

text \<open>Truth value testing, as \<open>or\<close>, \<open>not\<close> and \<open>if\<close> apply it.\<close>

fun truthy :: "pyval \<Rightarrow> bool" where
  "truthy PNone = False"
| "truthy (PStr s) = (s \<noteq> [])"
| "truthy (PInt i) = (i \<noteq> 0)"

definition py_or :: "pyval \<Rightarrow> pyval \<Rightarrow> pyval" where
  "py_or a b = (if truthy a then a else b)"

text \<open>Decimal digits of a number, for \<open>str(int)\<close> inside an f-string.\<close>

definition digit_char :: "nat \<Rightarrow> char" where
  "digit_char d = char_of (48 + d)"

function show_nat :: "nat \<Rightarrow> string" where
  "show_nat n = (if n < 10 then [digit_char n] else show_nat (n div 10) @ [digit_char (n mod 10)])"
  by pat_completeness auto
termination
  by (relation "measure id") auto

definition show_int :: "int \<Rightarrow> string" where
  "show_int i = (if i < 0 then CHR ''-'' # show_nat (nat (- i)) else show_nat (nat i))"

fun py_str :: "pyval \<Rightarrow> string" where
  "py_str PNone = ''None''"
| "py_str (PStr s) = s"
| "py_str (PInt i) = show_int i"

text \<open>\<open>needle in haystack\<close> on strings.\<close>

definition startswith :: "string \<Rightarrow> string \<Rightarrow> bool" where
  "startswith s needle = (take (length needle) s = needle)"

fun str_contains :: "string \<Rightarrow> string \<Rightarrow> bool" where
  "str_contains needle [] = (needle = [])"
| "str_contains needle (c # cs) = (startswith (c # cs) needle \<or> str_contains needle cs)"

text \<open>
  \<open>str.split()\<close> with no argument: the maximal runs of characters that are not
  whitespace. The whitespace code points below 256 are 9 to 13, 28 to 32, 133 and 160.
\<close>

definition is_space :: "char \<Rightarrow> bool" where
  "is_space c = (let n = (of_char c :: nat) in
     (9 \<le> n \<and> n \<le> 13) \<or> (28 \<le> n \<and> n \<le> 32) \<or> n = 133 \<or> n = 160)"

fun str_split_from :: "string \<Rightarrow> string \<Rightarrow> string list" where
  "str_split_from cur [] = (if cur = [] then [] else [cur])"
| "str_split_from cur (c # cs) =
     (if is_space c
      then (if cur = [] then str_split_from [] cs else cur # str_split_from [] cs)
      else str_split_from (cur @ [c]) cs)"

definition str_split :: "string \<Rightarrow> string list" where
  "str_split s = str_split_from [] s"

text \<open>
  \<open>load_config\<close> (lines 14 to 38). The argument is the process environment as
  \<open>os.getenv\<close> reads it after \<open>load_dotenv()\<close> has run.
\<close>

type_synonym config = "string \<rightharpoonup> pyval"

definition os_getenv :: "(string \<Rightarrow> string option) \<Rightarrow> string \<Rightarrow> pyval" where
  "os_getenv env key = (case env key of None \<Rightarrow> PNone | Some v \<Rightarrow> PStr v)"

definition key_defaults :: "(string \<times> pyval) list" where
  "key_defaults =
    [(''ILIAS_DOWNLOADER_USER_NAME'', PNone),
     (''ILIAS_DOWNLOADER_PASSWORD'', PNone),
     (''ILIAS_DOWNLOADER_CLOUD_OUTPUT_PATH'', PStr ''output''),
     (''ILIAS_DOWNLOADER_SYNC_URL'', PNone),
     (''ILIAS_DOWNLOADER_JOBS'', PInt 10),
     (''ILIAS_DOWNLOADER_RATE'', PInt 100),
     (''ILIAS_DOWNLOADER_RCLONE_REMOTE_NAME'', PStr ''IliasDL-Cloud-Drive''),
     (''ILIAS_DOWNLOADER_CLIENT_ID'', PNone),
     (''ILIAS_DOWNLOADER_CLIENT_SECRET'', PNone),
     (''ILIAS_DOWNLOADER_UPLOAD_TIMES'', PStr ''00:00'')]"

definition load_config :: "(string \<Rightarrow> string option) \<Rightarrow> config" where
  "load_config env =
     fold (\<lambda>(key, default) cfg. cfg(key \<mapsto> py_or (os_getenv env key) default))
       key_defaults Map.empty"

text \<open>\<open>config[key]\<close>: a missing key raises \<open>KeyError\<close>.\<close>

definition cfg_item :: "config \<Rightarrow> string \<Rightarrow> error + pyval" where
  "cfg_item cfg key = (case cfg key of None \<Rightarrow> Inl (KeyError key) | Some v \<Rightarrow> Inr v)"


definition bind_err :: "error + 'a \<Rightarrow> ('a \<Rightarrow> error + 'b) \<Rightarrow> error + 'b" where
  "bind_err m f = (case m of Inl e \<Rightarrow> Inl e | Inr x \<Rightarrow> f x)"

section \<open>The outside world and the trace of a run\<close>

text \<open>
  Everything main.py asks of its surroundings is an oracle of the world; an oracle that
  can be asked more than once takes the number of interactions made so far, so its
  answer may change over time. Every interaction is appended to the trace.
\<close>

record world =
  environ :: "string \<Rightarrow> string option"
  sys_platform :: string
  path_home :: string
  path_exists :: "nat \<Rightarrow> string \<Rightarrow> bool"
  which_found :: "nat \<Rightarrow> string \<Rightarrow> bool"
  run_returncode :: "nat \<Rightarrow> string \<Rightarrow> int"
  check_output_stdout :: "nat \<Rightarrow> string \<Rightarrow> string option"
  dialog_choice :: "nat \<Rightarrow> pyval"

datatype level = Info | Warning | Error

datatype event =
    Path_exists string
  | Makedirs string
  | Basic_config
  | Log level string
  | Log_list level string "string list"
  | Which string
  | Run string
  | Check_output string
  | Dialog "string list" "string list option" string
  | New_TimeScheduler
  | Sched_add string
  | Sched_start
  | Event_wait

type_synonym trace = "event list"

definition dq :: string where
  "dq = [CHR 0x22]"

definition sq :: string where
  "sq = [CHR 0x27]"

definition log :: "level \<Rightarrow> string \<Rightarrow> trace \<Rightarrow> trace" where
  "log l msg tr = tr @ [Log l msg]"

definition os_path_exists :: "world \<Rightarrow> string \<Rightarrow> trace \<Rightarrow> bool \<times> trace" where
  "os_path_exists w p tr = (path_exists w (length tr) p, tr @ [Path_exists p])"

definition shutil_which :: "world \<Rightarrow> string \<Rightarrow> trace \<Rightarrow> bool \<times> trace" where
  "shutil_which w cmd tr = (which_found w (length tr) cmd, tr @ [Which cmd])"

text \<open>\<open>subprocess.run(command, shell=True)\<close>: the return code of the shell.\<close>

definition subprocess_run :: "world \<Rightarrow> string \<Rightarrow> trace \<Rightarrow> int \<times> trace" where
  "subprocess_run w cmd tr = (run_returncode w (length tr) cmd, tr @ [Run cmd])"

text \<open>
  \<open>subprocess.check_output(command, shell=True, encoding='UTF-8')\<close>: the standard
  output, or \<open>None\<close> where a nonzero exit status raises \<open>CalledProcessError\<close>.
\<close>

definition subprocess_check_output :: "world \<Rightarrow> string \<Rightarrow> trace \<Rightarrow> string option \<times> trace" where
  "subprocess_check_output w cmd tr = (check_output_stdout w (length tr) cmd, tr @ [Check_output cmd])"

text \<open>
  \<open>show_selection_dialog\<close> of console_input, which is not part of the sources: its
  return value is the world's.
\<close>

definition show_selection_dialog ::
  "world \<Rightarrow> string list \<Rightarrow> string list option \<Rightarrow> string \<Rightarrow> trace \<Rightarrow> pyval \<times> trace" where
  "show_selection_dialog w options keys title tr =
     (dialog_choice w (length tr), tr @ [Dialog options keys title])"

section \<open>Download and upload\<close>

text \<open>\<open>unix_like\<close> (lines 72 to 77).\<close>

definition unix_like :: "world \<Rightarrow> bool" where
  "unix_like w = (if str_contains ''win'' (sys_platform w) then False else True)"

text \<open>\<open>upload_rclone\<close> (lines 162 to 171).\<close>

definition upload_command :: "pyval \<Rightarrow> pyval \<Rightarrow> pyval \<Rightarrow> string" where
  "upload_command r_name output_path_local output_path_remote =
     ''rclone copy --progress --ignore-existing '' @
     dq @ py_str output_path_local @ dq @ '' '' @
     dq @ py_str r_name @ '':'' @ py_str output_path_remote @ dq"

definition upload_rclone ::
  "config \<Rightarrow> world \<Rightarrow> pyval \<Rightarrow> pyval \<Rightarrow> trace \<Rightarrow> (error + unit) \<times> trace" where
  "upload_rclone cfg w output_path_local output_path_remote tr =
     (case cfg_item cfg ''ILIAS_DOWNLOADER_RCLONE_REMOTE_NAME'' of
        Inl e \<Rightarrow> (Inl e, tr)
      | Inr r_name \<Rightarrow>
          (let command = upload_command r_name output_path_local output_path_remote;
               (returncode, tr1) = subprocess_run w command tr
           in (Inr (), log Info ''Cloud upload completed.'' tr1)))"

text \<open>\<open>download_ilias_data\<close> (lines 41 to 69).\<close>

definition download_command :: "config \<Rightarrow> world \<Rightarrow> error + string" where
  "download_command cfg w =
     (let command = (if unix_like w then ''~/.cargo/bin/KIT-ILIAS-downloader''
                     else ''KIT-ILIAS-downloader'') in
      bind_err (cfg_item cfg ''ILIAS_DOWNLOADER_USER_NAME'') (\<lambda>user.
      bind_err (cfg_item cfg ''ILIAS_DOWNLOADER_PASSWORD'') (\<lambda>password.
      bind_err (cfg_item cfg ''ILIAS_DOWNLOADER_JOBS'') (\<lambda>jobs.
      bind_err (cfg_item cfg ''ILIAS_DOWNLOADER_RATE'') (\<lambda>rate.
      let command = command @ '' -U '' @ py_str user @
                      '' -P '' @ dq @ py_str password @ dq @
                      '' -o '' @ dq @ ''output'' @ dq @
                      '' --jobs  '' @ py_str jobs @
                      '' --rate '' @ py_str rate in
      bind_err (cfg_item cfg ''ILIAS_DOWNLOADER_SYNC_URL'') (\<lambda>sync_url.
      if truthy sync_url
      then bind_err (cfg_item cfg ''ILIAS_DOWNLOADER_SYNC_URL'') (\<lambda>sync_url.
             Inr (command @ '' --sync-url '' @ dq @ py_str sync_url @ dq))
      else Inr command))))))"

definition download_failed :: string where
  "download_failed =
     ''Could not execute the ilias download command. '' @
     ''If on linux/mac run: '' @ [CHR 0x0A, CHR 0x09] @ ''chmod +x KIT-ILIAS-downloader'' @
     [CHR 0x0A] @ ''to make the downloader executable.''"

definition download_ilias_data :: "config \<Rightarrow> world \<Rightarrow> trace \<Rightarrow> (error + unit) \<times> trace" where
  "download_ilias_data cfg w tr =
     (let tr1 = log Info ''Starting ilias download...'' tr in
      case download_command cfg w of
        Inl e \<Rightarrow> (Inl e, tr1)
      | Inr command \<Rightarrow>
          (let (returncode, tr2) = subprocess_run w command tr1 in
           if returncode = 0
           then (let tr3 = log Info
                       ''Download from ilias completed. Starting upload to the cloud...'' tr2 in
                 case cfg_item cfg ''ILIAS_DOWNLOADER_CLOUD_OUTPUT_PATH'' of
                   Inl e \<Rightarrow> (Inl e, tr3)
                 | Inr remote \<Rightarrow> upload_rclone cfg w (PStr ''output'') remote tr3)
           else (Inl (Exception download_failed), tr2)))"

section \<open>Interactive setup\<close>

text \<open>\<open>setup_ilias_downloader\<close> (lines 80 to 113). \<open>quit()\<close> raises \<open>SystemExit\<close>.\<close>

definition install_rust :: "world \<Rightarrow> trace \<Rightarrow> (error + unit) \<times> trace" where
  "install_rust w tr =
     (let (cargo, tr1) = shutil_which w ''cargo'' tr in
      if \<not> cargo
      then (let tr2 = log Info ''Rust is not installed. Trying to auto install it...'' tr1;
                (returncode, tr3) =
                   subprocess_run w ''curl https://sh.rustup.rs -sSf | sh -s -- -y'' tr2
            in if returncode = 0
               then (Inr (), log Info ''Rust was successfully installed.'' tr3)
               else (Inl (Exception (''Failed to auto install rust. '' @
                       ''Please try installing it manually at: '' @
                       ''https://www.rust-lang.org/tools/install'')), tr3))
      else (Inr (), tr1))"

definition install_downloader :: "world \<Rightarrow> trace \<Rightarrow> (error + unit) \<times> trace" where
  "install_downloader w tr =
     (let (returncode, tr1) =
            subprocess_run w (''cargo install --all-features '' @
              ''--git '' @ sq @ ''https://github.com/FliegendeWurst/KIT-ILIAS-downloader'' @ sq @
              '' --branch stable'') tr
      in if returncode = 0
         then (Inr (), log Info
                 ''The KIT-ILIAS-downloader CLI tool was successfully installed.'' tr1)
         else (Inl (Exception (''Failed to install the KIT-ILIAS-downloader CLI tool.'' @
                 ''Please try manually installing it at: '' @
                 ''https://github.com/fliegendewurst/kit-ilias-downloader'')), tr1))"

definition setup_ilias_downloader :: "world \<Rightarrow> trace \<Rightarrow> (error + unit) \<times> trace" where
  "setup_ilias_downloader w tr =
     (if \<not> unix_like w then (Inr (), tr)
      else
        (let (found, tr1) =
               shutil_which w (path_home w @ ''/.cargo/bin/KIT-ILIAS-downloader'') tr in
         if found then (Inr (), tr1)
         else
           (let (i, tr2) = show_selection_dialog w [''yes'', ''no''] (Some [''y'', ''n''])
                  (''The KIT-ILIAS-downloader is not installed on this system. '' @
                   ''Auto install it?'') tr1 in
            if i = PStr ''y''
            then (case install_rust w tr2 of
                    (Inl e, tr3) \<Rightarrow> (Inl e, tr3)
                  | (Inr u, tr3) \<Rightarrow> install_downloader w tr3)
            else (Inl SystemExit, tr2))))"

text \<open>
  \<open>setup_rclone\<close> (lines 116 to 159): \<open>True\<close> once the remote is listed, \<open>None\<close>
  (here \<open>False\<close>) after an interactive configuration.
\<close>

text \<open>\<open>xs[i]\<close> on a list, negative indices counting from the end.\<close>

definition py_index :: "'a list \<Rightarrow> int \<Rightarrow> error + 'a" where
  "py_index xs i =
     (if 0 \<le> i \<and> i < int (length xs) then Inr (xs ! nat i)
      else if i < 0 \<and> - int (length xs) \<le> i then Inr (xs ! nat (int (length xs) + i))
      else Inl IndexError)"

definition provider_options :: "pyval list" where
  "provider_options = [PStr ''drive'', PStr ''dropbox'', PStr ''onedrive'', PNone]"

definition rclone_config_command :: "config \<Rightarrow> pyval \<Rightarrow> pyval \<Rightarrow> trace \<Rightarrow> (error + string) \<times> trace" where
  "rclone_config_command cfg r_name index tr =
     (case index of
        PInt i \<Rightarrow>
          (if i < int (length provider_options) - 1
           then (case py_index provider_options i of
                   Inl e \<Rightarrow> (Inl e, tr)
                 | Inr opt \<Rightarrow>
                     (let command = ''rclone config create '' @ dq @ py_str r_name @ dq @
                            '' '' @ py_str opt in
                      case cfg_item cfg ''ILIAS_DOWNLOADER_CLIENT_ID'' of
                        Inl e \<Rightarrow> (Inl e, tr)
                      | Inr client_id \<Rightarrow>
                          (if \<not> truthy client_id
                           then (Inr command, log Warning (''The drive client id and the '' @
                                   ''client secret have not been set. Using defaults.'') tr)
                           else
                             (case cfg_item cfg ''ILIAS_DOWNLOADER_CLIENT_SECRET'' of
                                Inl e \<Rightarrow> (Inl e, tr)
                              | Inr client_secret \<Rightarrow>
                                  (if truthy client_secret
                                   then (Inr (command @
                                           '' --'' @ py_str opt @ ''-client-id '' @
                                             dq @ py_str client_id @ dq @
                                           '' --'' @ py_str opt @ ''-client-secret '' @
                                             dq @ py_str client_secret @ dq),
                                         log Info
                                           ''Using the provided client id and client secret.'' tr)
                                   else (Inr command, log Warning
                                           (''The drive client id and the '' @
                                            ''client secret have not been set. Using defaults.'')
                                           tr))))))
           else (Inr ''rclone config'', tr))
      | _ \<Rightarrow> (Inl TypeError, tr))"

definition setup_rclone :: "config \<Rightarrow> world \<Rightarrow> trace \<Rightarrow> (error + bool) \<times> trace" where
  "setup_rclone cfg w tr =
     (let (found, tr1) = shutil_which w ''rclone'' tr in
      if \<not> found
      then (Inl (Exception (''Rclone is not installed on this system. '' @
              ''It is needed to backup the files to the cloud!'' @
              ''Install it here: https://rclone.org/'')), tr1)
      else
        (case cfg_item cfg ''ILIAS_DOWNLOADER_RCLONE_REMOTE_NAME'' of
           Inl e \<Rightarrow> (Inl e, tr1)
         | Inr r_name \<Rightarrow>
             (case subprocess_check_output w ''rclone listremotes'' tr1 of
                (None, tr2) \<Rightarrow> (Inl CalledProcessError, tr2)
              | (Some out, tr2) \<Rightarrow>
                  (let remotes = str_split out in
                   if py_str r_name @ '':'' \<notin> set remotes
                   then
                     (let (i, tr3) = show_selection_dialog w
                            [''Yes (start interactive setup)'', ''No (terminate)'']
                            (Some [''y'', ''n''])
                            (''The remote '' @ sq @ py_str r_name @ sq @
                             '' has not been set up yet. Set it up now?'') tr2 in
                      if i = PStr ''y''
                      then
                        (let (index, tr4) = show_selection_dialog w
                               [''GoogleDrive'', ''Dropbox'', ''OneDrive'',
                                ''Other (manual setup using rclone)'']
                               None ''Choose your cloud provider'' tr3 in
                         case rclone_config_command cfg r_name index tr4 of
                           (Inl e, tr5) \<Rightarrow> (Inl e, tr5)
                         | (Inr command, tr5) \<Rightarrow>
                             (let (returncode, tr6) = subprocess_run w command tr5
                              in (Inr False, tr6)))
                      else (Inl SystemExit, tr3))
                   else (Inr True, tr2)))))"

text \<open>
  The loop of lines 203 to 205. It runs until \<open>setup_rclone\<close> returns \<open>True\<close> or
  raises; \<open>None\<close> is a loop that never ends.
\<close>

partial_function (option) setup_loop ::
  "config \<Rightarrow> world \<Rightarrow> trace \<Rightarrow> ((error + unit) \<times> trace) option" where
  "setup_loop cfg w tr =
     (case setup_rclone cfg w tr of
        (Inl e, tr1) \<Rightarrow> Some (Inl e, tr1)
      | (Inr set_up_complete, tr1) \<Rightarrow>
          (if \<not> set_up_complete then setup_loop cfg w tr1 else Some (Inr (), tr1)))"

section \<open>The scheduler's interface\<close>

text \<open>
  Modelled from the spec: scheduler.py, with the classes \<open>Task\<close> and
  \<open>TimeScheduler\<close> that main.py imports, is not among the sources. A task is a time of
  day (hour, minute) and an action.
\<close>

record 'a task =
  timeOfDay :: "nat \<times> nat"
  action :: 'a

text \<open>
  Modelled from the spec: the state of a \<open>TimeScheduler\<close>, which is missing from the
  sources. Section 3 gives it the registered tasks and the \<open>running\<close> flag; section 4
  gives every task its next due instant (none before the driver's first check), and, for
  the overlap policy, \<open>in_flight_until\<close> is the time the task's running invocation
  ends and \<open>pending\<close> says that one re-invocation is queued. Times are seconds on a
  clock whose days are 86400 seconds long.
\<close>

record 'a scheduler =
  tasks :: "'a task list"
  running :: bool
  next_due :: "nat \<Rightarrow> nat option"
  in_flight_until :: "nat \<Rightarrow> nat"
  pending :: "nat \<Rightarrow> bool"

text \<open>
  Modelled from the spec: the constructor \<open>TimeScheduler()\<close>, missing from the
  sources; the initial state is \<open>stopped\<close> with no task.
\<close>

definition TimeScheduler :: "'a scheduler" where
  "TimeScheduler =
     \<lparr>tasks = [], running = False, next_due = (\<lambda>i. None), in_flight_until = (\<lambda>i. 0),
      pending = (\<lambda>i. False)\<rparr>"

text \<open>
  Modelled from the spec: the parser of a time of day, missing from the sources. A valid
  time is a zero-padded 24-hour \<open>HH:MM\<close>, hour 0 to 23 and minute 0 to 59.
\<close>

definition digit_val :: "char \<Rightarrow> nat option" where
  "digit_val c = (let n = (of_char c :: nat) in if 48 \<le> n \<and> n \<le> 57 then Some (n - 48) else None)"

text \<open>
  Modelled from the spec: the parser proper, missing from the sources with scheduler.py:
  two digits, a colon and two digits, with the hour below 24 and the minute below 60.
\<close>

fun parse_time_of_day :: "string \<Rightarrow> (nat \<times> nat) option" where
  "parse_time_of_day [h1, h2, c, m1, m2] =
     (case (digit_val h1, digit_val h2, digit_val m1, digit_val m2) of
        (Some a, Some b, Some x, Some y) \<Rightarrow>
          (if c = CHR '':'' \<and> 10 * a + b < 24 \<and> 10 * x + y < 60
           then Some (10 * a + b, 10 * x + y) else None)
      | _ \<Rightarrow> None)"
| "parse_time_of_day s = None"

text \<open>
  Modelled from the spec: \<open>add\<close> of the \<open>TimeScheduler\<close>, missing from the sources.
  A malformed time fails with \<open>ConfigurationError\<close> and registers nothing; a valid one
  appends the task to the registry. main.py passes the pair as \<open>Task(t, action)\<close>.
\<close>

definition add :: "string \<Rightarrow> 'a \<Rightarrow> 'a scheduler \<Rightarrow> error + 'a scheduler" where
  "add time_of_day act s =
     (case parse_time_of_day time_of_day of
        None \<Rightarrow> Inl ConfigurationError
      | Some t \<Rightarrow> Inr (s\<lparr>tasks := tasks s @ [\<lparr>timeOfDay = t, action = act\<rparr>]\<rparr>))"

text \<open>
  Modelled from the spec: \<open>start\<close> and \<open>stop\<close> of the \<open>TimeScheduler\<close>, missing from
  the sources. \<open>start\<close> moves to \<open>running\<close> and fails with \<open>AlreadyRunningError\<close> on a
  running scheduler; \<open>stop\<close> moves to \<open>stopped\<close>.
\<close>

definition start :: "'a scheduler \<Rightarrow> error + 'a scheduler" where
  "start s = (if running s then Inl AlreadyRunningError else Inr (s\<lparr>running := True\<rparr>))"

text \<open>
  Modelled from the spec: \<open>stop\<close> of the \<open>TimeScheduler\<close>, missing from the sources
  and unused by main.py.
\<close>

definition stop :: "'a scheduler \<Rightarrow> 'a scheduler" where
  "stop s = s\<lparr>running := False\<rparr>"

section \<open>The main program\<close>

text \<open>
  How a run of the main program ends: the script reaches its end, an exception (or
  \<open>SystemExit\<close>) leaves it, or it waits in \<open>Event().wait()\<close>, which nothing ever sets,
  with the scheduler it started.
\<close>

datatype action = Download_ilias_data

datatype outcome = Finished | Crashed error | Waiting "action scheduler"

text \<open>Lines 215 and 216: \<open>for t in upload_times: ts.add(Task(t, download_ilias_data))\<close>.\<close>

fun register_all ::
  "string list \<Rightarrow> action scheduler \<Rightarrow> trace \<Rightarrow> (error + action scheduler) \<times> trace" where
  "register_all [] ts tr = (Inr ts, tr)"
| "register_all (t # upload_times) ts tr =
     (case add t Download_ilias_data ts of
        Inl e \<Rightarrow> (Inl e, tr @ [Sched_add t])
      | Inr ts1 \<Rightarrow> register_all upload_times ts1 (tr @ [Sched_add t]))"

text \<open>
  Lines 212 to 220. The log line of line 213 is recorded with the list it formats.
\<close>

definition schedule_downloads :: "config \<Rightarrow> trace \<Rightarrow> outcome \<times> trace" where
  "schedule_downloads cfg tr =
     (case cfg_item cfg ''ILIAS_DOWNLOADER_UPLOAD_TIMES'' of
        Inl e \<Rightarrow> (Crashed e, tr)
      | Inr (PStr s) \<Rightarrow>
          (let upload_times = str_split s;
               tr1 = tr @ [Log_list Info ''Scheduling automatic downloads for '' upload_times];
               tr2 = tr1 @ [New_TimeScheduler]
           in case register_all upload_times TimeScheduler tr2 of
                (Inl e, tr3) \<Rightarrow> (Crashed e, tr3)
              | (Inr ts, tr3) \<Rightarrow>
                  (case start ts of
                     Inl e \<Rightarrow> (Crashed e, tr3 @ [Sched_start])
                   | Inr ts1 \<Rightarrow> (Waiting ts1, tr3 @ [Sched_start, Event_wait])))
      | Inr _ \<Rightarrow> (Crashed AttributeError, tr))"

text \<open>
  Lines 212 to 220 once more, with the scheduler of scheduler.py (which is not among the
  sources) as a parameter: the scheduler the constructor returns, its \<open>add\<close> (applied to the
  \<open>Task\<close> made of the time string and the action) and its \<open>start\<close>. A call that raises is the error of the result; \<open>Inr\<close> is the scheduler
  the host then waits with.
\<close>

fun register_all_with ::
  "(string \<Rightarrow> action \<Rightarrow> 's \<Rightarrow> error + 's) \<Rightarrow> string list \<Rightarrow> 's \<Rightarrow> trace \<Rightarrow>
     (error + 's) \<times> trace" where
  "register_all_with add_fn [] ts tr = (Inr ts, tr)"
| "register_all_with add_fn (t # upload_times) ts tr =
     (case add_fn t Download_ilias_data ts of
        Inl e \<Rightarrow> (Inl e, tr @ [Sched_add t])
      | Inr ts1 \<Rightarrow> register_all_with add_fn upload_times ts1 (tr @ [Sched_add t]))"

definition schedule_with ::
  "'s \<Rightarrow> (string \<Rightarrow> action \<Rightarrow> 's \<Rightarrow> error + 's) \<Rightarrow> ('s \<Rightarrow> error + 's) \<Rightarrow> config \<Rightarrow> trace \<Rightarrow>
     (error + 's) \<times> trace" where
  "schedule_with new_scheduler add_fn start_fn cfg tr =
     (case cfg_item cfg ''ILIAS_DOWNLOADER_UPLOAD_TIMES'' of
        Inl e \<Rightarrow> (Inl e, tr)
      | Inr (PStr s) \<Rightarrow>
          (let upload_times = str_split s;
               tr1 = tr @ [Log_list Info ''Scheduling automatic downloads for '' upload_times];
               tr2 = tr1 @ [New_TimeScheduler]
           in case register_all_with add_fn upload_times new_scheduler tr2 of
                (Inl e, tr3) \<Rightarrow> (Inl e, tr3)
              | (Inr ts, tr3) \<Rightarrow>
                  (case start_fn ts of
                     Inl e \<Rightarrow> (Inl e, tr3 @ [Sched_start])
                   | Inr ts1 \<Rightarrow> (Inr ts1, tr3 @ [Sched_start, Event_wait])))
      | Inr _ \<Rightarrow> (Inl AttributeError, tr))"

text \<open>Lines 207 to 220: the first run, then the scheduling.\<close>

definition first_run_and_schedule :: "config \<Rightarrow> world \<Rightarrow> trace \<Rightarrow> outcome \<times> trace" where
  "first_run_and_schedule cfg w tr =
     (let (output_exists, tr1) = os_path_exists w ''output'' tr in
      if \<not> output_exists
      then (case download_ilias_data cfg w tr1 of
              (Inl e, tr2) \<Rightarrow> (Crashed e, tr2)
            | (Inr u, tr2) \<Rightarrow> schedule_downloads cfg tr2)
      else schedule_downloads cfg tr1)"

text \<open>Lines 175 to 187: the data folder and the logger.\<close>

definition prelude :: "world \<Rightarrow> trace" where
  "prelude w =
     (let (data_exists, tr0) = os_path_exists w ''./data'' [];
          tr1 = (if \<not> data_exists then tr0 @ [Makedirs ''./data''] else tr0)
      in tr1 @ [Basic_config])"

text \<open>Lines 199 to 205: both setups; \<open>None\<close> when the loop never ends.\<close>

definition setup_phase :: "config \<Rightarrow> world \<Rightarrow> trace \<Rightarrow> ((error + unit) \<times> trace) option" where
  "setup_phase cfg w tr =
     (case setup_ilias_downloader w tr of
        (Inl e, tr1) \<Rightarrow> Some (Inl e, tr1)
      | (Inr u, tr1) \<Rightarrow> setup_loop cfg w tr1)"

text \<open>The main program (lines 174 to 220); \<open>None\<close> when the setup loop never ends.\<close>

definition main :: "world \<Rightarrow> (outcome \<times> trace) option" where
  "main w =
     (let tr = prelude w;
          config = load_config (environ w)
      in case cfg_item config ''ILIAS_DOWNLOADER_USER_NAME'' of
           Inl e \<Rightarrow> Some (Crashed e, tr)
         | Inr user_name \<Rightarrow>
             (if \<not> truthy user_name
              then Some (Finished, log Error ''The Ilias username has not been set'' tr)
              else
                (case cfg_item config ''ILIAS_DOWNLOADER_PASSWORD'' of
                   Inl e \<Rightarrow> Some (Crashed e, tr)
                 | Inr password \<Rightarrow>
                     (if \<not> truthy password
                      then Some (Finished, log Error ''The Ilias password has not been set'' tr)
                      else
                        (case setup_phase config w tr of
                           None \<Rightarrow> None
                         | Some (Inl e, tr1) \<Rightarrow> Some (Crashed e, tr1)
                         | Some (Inr u, tr1) \<Rightarrow> Some (first_run_and_schedule config w tr1))))))"

section \<open>The scheduler's driver\<close>

text \<open>
  Modelled from the spec: the world of the driver, which is missing from the sources
  with scheduler.py. An invocation of the action of task \<open>i\<close> begun at time \<open>t\<close> runs
  for \<open>duration i t\<close> seconds and raises when \<open>raises i t\<close>.
\<close>

record action_world =
  duration :: "nat \<Rightarrow> nat \<Rightarrow> nat"
  raises :: "nat \<Rightarrow> nat \<Rightarrow> bool"

text \<open>
  Modelled from the spec: the reporting hook of section 6, missing from the sources: a
  task fired, an occurrence was skipped because of an overlap, an occurrence was deferred
  (one re-invocation queued) because of an overlap, an action failed.
\<close>

datatype report = Fired nat nat | Skipped nat nat | Deferred nat nat | Failed nat nat

text \<open>
  Modelled from the spec: the two overlap policies section 4 allows, missing from the
  sources with scheduler.py: skip the occurrence, or queue at most one re-invocation for
  when the running one has completed.
\<close>

datatype overlap = Skip_occurrence | Queue_one

text \<open>
  Modelled from the spec: the second of the day at which a task is due, missing from the
  sources with scheduler.py.
\<close>

definition due_second :: "'a task \<Rightarrow> nat" where
  "due_second tk = (case timeOfDay tk of (h, m) \<Rightarrow> h * 3600 + m * 60)"

text \<open>
  Modelled from the spec: the next due instant of section 4, missing from the sources
  with scheduler.py. When the current time of day is not after the task's, it is today
  at that time; otherwise tomorrow at that time.
\<close>

definition at_or_after :: "'a task \<Rightarrow> nat \<Rightarrow> nat" where
  "at_or_after tk now =
     (if now mod 86400 \<le> due_second tk
      then now div 86400 * 86400 + due_second tk
      else (now div 86400 + 1) * 86400 + due_second tk)"

text \<open>
  Modelled from the spec: the due instant a task is rescheduled for once an occurrence
  has been dealt with at time \<open>now\<close>, missing from the sources with scheduler.py: the
  first one after \<open>now\<close>, so that days slept through are not caught up.
\<close>

definition next_after :: "'a task \<Rightarrow> nat \<Rightarrow> nat" where
  "next_after tk now = at_or_after tk (Suc now)"

text \<open>
  Modelled from the spec: one due-time check of one task, missing from the sources. The
  state is the task's next due instant, the end of its invocation in flight and whether
  a re-invocation is queued. The due instant is computed at the first check. When it has
  passed, the task fires at once and is rescheduled; but while its previous invocation
  is still running no second one is started: the occurrence is skipped, or (policy
  \<open>Queue_one\<close>, nothing queued yet) one re-invocation is queued, and either is reported.
  A queued re-invocation fires at the first check after the running one has completed.
  A raising action is caught and reported.
\<close>

definition step_task ::
  "overlap \<Rightarrow> action_world \<Rightarrow> nat \<Rightarrow> nat \<Rightarrow> 'a task \<Rightarrow> nat option \<times> nat \<times> bool \<Rightarrow>
     (nat option \<times> nat \<times> bool) \<times> report list" where
  "step_task pol w now i tk st =
     (case st of (nd, busy, pend) \<Rightarrow>
        let due = (case nd of None \<Rightarrow> at_or_after tk now | Some n \<Rightarrow> n) in
        if due \<le> now
        then (if now < busy
              then (if pol = Queue_one \<and> \<not> pend
                    then ((Some (next_after tk now), busy, True), [Deferred i now])
                    else ((Some (next_after tk now), busy, pend), [Skipped i now]))
              else ((Some (next_after tk now), now + duration w i now, False),
                    Fired i now # (if raises w i now then [Failed i now] else [])))
        else if pend \<and> \<not> now < busy
        then ((Some due, now + duration w i now, False),
              Fired i now # (if raises w i now then [Failed i now] else []))
        else ((Some due, busy, pend), []))"

text \<open>
  Modelled from the spec: the check of task \<open>i\<close> on the scheduler's state, missing from
  the sources with scheduler.py; the registry and the \<open>running\<close> flag are not touched.
\<close>

definition check_task ::
  "overlap \<Rightarrow> action_world \<Rightarrow> nat \<Rightarrow> nat \<Rightarrow> 'a scheduler \<times> report list \<Rightarrow>
     'a scheduler \<times> report list" where
  "check_task pol w now i acc =
     (case acc of (s, reports) \<Rightarrow>
        case step_task pol w now i (tasks s ! i) (next_due s i, in_flight_until s i, pending s i) of
          ((nd, busy, pend), r) \<Rightarrow>
            (s\<lparr>next_due := (next_due s)(i := nd),
               in_flight_until := (in_flight_until s)(i := busy),
               pending := (pending s)(i := pend)\<rparr>, reports @ r))"

text \<open>
  Modelled from the spec: the driver loop, missing from the sources. At every wake-up a
  running scheduler checks each registered task; a stopped one fires nothing.
\<close>

definition poll ::
  "overlap \<Rightarrow> action_world \<Rightarrow> nat \<Rightarrow> 'a scheduler \<Rightarrow> 'a scheduler \<times> report list" where
  "poll pol w now s =
     (if running s then fold (check_task pol w now) [0..<length (tasks s)] (s, []) else (s, []))"

text \<open>
  Modelled from the spec: the driver over the list of its wake-up times, missing from the
  sources with scheduler.py. Whether the driver sleeps until a due instant or polls at a
  fixed interval only changes the list.
\<close>

fun run_driver ::
  "overlap \<Rightarrow> action_world \<Rightarrow> nat list \<Rightarrow> 'a scheduler \<Rightarrow> 'a scheduler \<times> report list" where
  "run_driver pol w [] s = (s, [])"
| "run_driver pol w (now # later) s =
     (case poll pol w now s of (s1, r1) \<Rightarrow>
        case run_driver pol w later s1 of (s2, r2) \<Rightarrow> (s2, r1 @ r2))"

section \<open>Notions the properties are stated with\<close>

text \<open>The valid time strings, as the specification words them: every zero-padded hour
  from 0 to 23 with every zero-padded minute from 0 to 59.\<close>

definition two_digits :: "nat \<Rightarrow> string" where
  "two_digits n = [digit_char (n div 10), digit_char (n mod 10)]"

definition hhmm :: "nat \<Rightarrow> nat \<Rightarrow> string" where
  "hhmm h m = two_digits h @ '':'' @ two_digits m"

definition valid_times :: "string list" where
  "valid_times = concat (map (\<lambda>h. map (hhmm h) [0..<60]) [0..<24])"

text \<open>The events of a trace that are calls of the scheduler.\<close>

fun scheduler_call :: "event \<Rightarrow> bool" where
  "scheduler_call New_TimeScheduler = True"
| "scheduler_call (Sched_add t) = True"
| "scheduler_call Sched_start = True"
| "scheduler_call e = False"

text \<open>
  Every invocation of \<open>download_ilias_data\<close> begins with the log line of line 42, and
  nothing else writes it: the invocations in a trace are counted by it.
\<close>

definition download_invocations :: "trace \<Rightarrow> nat" where
  "download_invocations tr =
     length (filter (\<lambda>e. e = Log Info ''Starting ilias download...'') tr)"

text \<open>The events only the setup writes: interaction with the installer tools.\<close>

fun setup_event :: "event \<Rightarrow> bool" where
  "setup_event (Which c) = True"
| "setup_event (Run c) = True"
| "setup_event (Check_output c) = True"
| "setup_event (Dialog os ks t) = True"
| "setup_event e = False"

text \<open>The times at which task \<open>i\<close> fired, and those at which it was skipped.\<close>

fun fire_times :: "nat \<Rightarrow> report list \<Rightarrow> nat list" where
  "fire_times i [] = []"
| "fire_times i (Fired j t # rs) = (if j = i then t # fire_times i rs else fire_times i rs)"
| "fire_times i (r # rs) = fire_times i rs"

text \<open>
  Wake-up times of a driver of granularity \<open>g\<close>: increasing, and no more than \<open>g\<close>
  apart.
\<close>

fun wakeups :: "nat \<Rightarrow> nat list \<Rightarrow> bool" where
  "wakeups g [] = True"
| "wakeups g [p] = True"
| "wakeups g (p # q # ps) = (p < q \<and> q \<le> p + g \<and> wakeups g (q # ps))"

text \<open>The occurrence of a task's time of day on day \<open>d\<close>.\<close>

definition occurrence :: "'a task \<Rightarrow> nat \<Rightarrow> nat" where
  "occurrence tk d = d * 86400 + due_second tk"

definition valid_time :: "nat \<times> nat \<Rightarrow> bool" where
  "valid_time t = (case t of (h, m) \<Rightarrow> h < 24 \<and> m < 60)"

text \<open>The time of a registered task, written back as \<open>HH:MM\<close>.\<close>

definition time_string :: "'a task \<Rightarrow> string" where
  "time_string tk = (case timeOfDay tk of (h, m) \<Rightarrow> hhmm h m)"

text \<open>The tokens of the configured upload times, as line 212 splits them.\<close>

definition configured_times :: "world \<Rightarrow> string list" where
  "configured_times w =
     (case load_config (environ w) ''ILIAS_DOWNLOADER_UPLOAD_TIMES'' of
        Some (PStr s) \<Rightarrow> str_split s
      | _ \<Rightarrow> [])"

text \<open>
  A stretch of a trace in which the host neither calls the scheduler, nor waits, nor
  starts a download.
\<close>

definition host_quiet :: "trace \<Rightarrow> bool" where
  "host_quiet tr =
     (list_all (\<lambda>e. \<not> scheduler_call e \<and> e \<noteq> Event_wait) tr \<and> download_invocations tr = 0)"

text \<open>The task a report is about, and the reports of a failed action.\<close>

fun report_task :: "report \<Rightarrow> nat" where
  "report_task (Fired i t) = i"
| "report_task (Skipped i t) = i"
| "report_task (Deferred i t) = i"
| "report_task (Failed i t) = i"

fun failure :: "report \<Rightarrow> bool" where
  "failure (Failed i t) = True"
| "failure r = False"

text \<open>
  The driver as one task sees it: the checks of that task alone, over the same wake-up
  times, on the task's own due instant, invocation in flight and queued re-invocation.
\<close>

fun task_run ::
  "overlap \<Rightarrow> action_world \<Rightarrow> nat \<Rightarrow> 'a task \<Rightarrow> nat list \<Rightarrow> nat option \<times> nat \<times> bool \<Rightarrow>
     (nat option \<times> nat \<times> bool) \<times> report list" where
  "task_run pol w i tk [] st = (st, [])"
| "task_run pol w i tk (now # later) st =
     (case step_task pol w now i tk st of (st1, r1) \<Rightarrow>
        case task_run pol w i tk later st1 of (st2, r2) \<Rightarrow> (st2, r1 @ r2))"

section \<open>Example worlds\<close>

text \<open>
  A configured Linux machine: credentials and two upload times in the environment, the
  downloader and rclone installed, the remote set up, every command succeeding, and the
  folder \<open>output\<close> already there.
\<close>

definition example_env :: "string \<Rightarrow> string option" where
  "example_env =
     [''ILIAS_DOWNLOADER_USER_NAME'' \<mapsto> ''student'',
      ''ILIAS_DOWNLOADER_PASSWORD'' \<mapsto> ''secret'',
      ''ILIAS_DOWNLOADER_UPLOAD_TIMES'' \<mapsto> ''06:30 18:00'']"

definition example_world :: world where
  "example_world =
     \<lparr>environ = example_env,
      sys_platform = ''linux'',
      path_home = ''/home/student'',
      path_exists = (\<lambda>n p. p = ''output''),
      which_found = (\<lambda>n c. True),
      run_returncode = (\<lambda>n c. 0),
      check_output_stdout = (\<lambda>n c. Some (''IliasDL-Cloud-Drive:'' @ [CHR 0x0A])),
      dialog_choice = (\<lambda>n. PStr ''n'')\<rparr>"

text \<open>The same machine before its first run: no folder \<open>output\<close> yet.\<close>

definition first_run_world :: world where
  "first_run_world = example_world\<lparr>path_exists := (\<lambda>n p. False)\<rparr>"

text \<open>The first run on a machine whose downloader exits with status 1.\<close>

definition failing_world :: world where
  "failing_world = first_run_world\<lparr>run_returncode := (\<lambda>n c. 1)\<rparr>"

text \<open>A machine with nothing set in the environment.\<close>

definition bare_world :: world where
  "bare_world = example_world\<lparr>environ := (\<lambda>key. None)\<rparr>"

text \<open>What the setup of these machines writes to the trace: nothing needs installing.\<close>

definition example_setup_trace :: trace where
  "example_setup_trace =
     [Path_exists ''./data'', Makedirs ''./data'', Basic_config,
      Which ''/home/student/.cargo/bin/KIT-ILIAS-downloader'',
      Which ''rclone'', Check_output ''rclone listremotes'']"

text \<open>
  The scheduler the host starts from an empty environment: one download a day at
  00:00. Its driver wakes every 60 seconds, from time 0 on.
\<close>

definition midnight_scheduler :: "action scheduler" where
  "midnight_scheduler =
     \<lparr>tasks = [\<lparr>timeOfDay = (0, 0), action = Download_ilias_data\<rparr>],
      running = True, next_due = (\<lambda>i. None), in_flight_until = (\<lambda>i. 0),
      pending = (\<lambda>i. False)\<rparr>"

definition minute_wakeups :: "nat \<Rightarrow> nat list" where
  "minute_wakeups n = map (\<lambda>k. 60 * k) [0..<n]"

text \<open>Actions that take ten seconds and raise every time.\<close>

definition raising_actions :: action_world where
  "raising_actions = \<lparr>duration = (\<lambda>i t. 10), raises = (\<lambda>i t. True)\<rparr>"

text \<open>Actions that take 49 hours and never raise.\<close>

definition slow_actions :: action_world where
  "slow_actions = \<lparr>duration = (\<lambda>i t. 176400), raises = (\<lambda>i t. False)\<rparr>"

section \<open>The configuration\<close>

lemma load_config_apply:
  "load_config env key =
     (case map_of key_defaults key of
        None \<Rightarrow> None
      | Some d \<Rightarrow> Some (py_or (os_getenv env key) d))"
  by (simp add: load_config_def key_defaults_def)

lemma cfg_item_load_config:
  "map_of key_defaults key = Some d \<Longrightarrow>
     cfg_item (load_config env) key = Inr (py_or (os_getenv env key) d)"
  by (simp add: cfg_item_def load_config_apply)

lemma map_of_key_defaults:
  "map_of key_defaults ''ILIAS_DOWNLOADER_USER_NAME'' = Some PNone"
  "map_of key_defaults ''ILIAS_DOWNLOADER_PASSWORD'' = Some PNone"
  "map_of key_defaults ''ILIAS_DOWNLOADER_CLOUD_OUTPUT_PATH'' = Some (PStr ''output'')"
  "map_of key_defaults ''ILIAS_DOWNLOADER_SYNC_URL'' = Some PNone"
  "map_of key_defaults ''ILIAS_DOWNLOADER_JOBS'' = Some (PInt 10)"
  "map_of key_defaults ''ILIAS_DOWNLOADER_RATE'' = Some (PInt 100)"
  "map_of key_defaults ''ILIAS_DOWNLOADER_RCLONE_REMOTE_NAME'' = Some (PStr ''IliasDL-Cloud-Drive'')"
  "map_of key_defaults ''ILIAS_DOWNLOADER_CLIENT_ID'' = Some PNone"
  "map_of key_defaults ''ILIAS_DOWNLOADER_CLIENT_SECRET'' = Some PNone"
  "map_of key_defaults ''ILIAS_DOWNLOADER_UPLOAD_TIMES'' = Some (PStr ''00:00'')"
  by (simp_all add: key_defaults_def)

lemmas cfg_items = map_of_key_defaults [THEN cfg_item_load_config]

lemma py_or_getenv:
  "py_or (os_getenv env key) d =
     (case env key of None \<Rightarrow> d | Some v \<Rightarrow> if v = [] then d else PStr v)"
  by (simp add: py_or_def os_getenv_def split: option.splits)

lemma load_config_key:
  "(key, d) \<in> set key_defaults \<Longrightarrow>
     load_config env key =
       Some (case env key of None \<Rightarrow> d | Some v \<Rightarrow> if v = [] then d else PStr v)"
proof -
  assume "(key, d) \<in> set key_defaults"
  moreover have "distinct (map fst key_defaults)"
    by (simp add: key_defaults_def)
  ultimately have "map_of key_defaults key = Some d"
    by simp
  then show ?thesis
    by (simp add: load_config_apply py_or_getenv)
qed

lemma schedule_default:
  "schedule_downloads (load_config (\<lambda>key. None)) tr =
     (Waiting \<lparr>tasks = [\<lparr>timeOfDay = (0, 0), action = Download_ilias_data\<rparr>],
               running = True, next_due = (\<lambda>i. None), in_flight_until = (\<lambda>i. 0),
               pending = (\<lambda>i. False)\<rparr>,
      tr @ [Log_list Info ''Scheduling automatic downloads for '' [''00:00''],
            New_TimeScheduler, Sched_add ''00:00'', Sched_start, Event_wait])"
  by (simp add: schedule_downloads_def cfg_items py_or_getenv str_split_def is_space_def
        add_def digit_val_def TimeScheduler_def start_def)

text \<open>
  C8. For every key of the configuration, \<open>load_config\<close> returns the value of the
  environment variable when it is set to a non-empty string, and the listed default when
  it is unset or empty. The defaults are \<open>None\<close> for the user name, the password, the
  sync URL, the client id and the client secret, \<open>output\<close> for the cloud output path and
  \<open>00:00\<close> for the upload times; so from an empty environment the scheduling of lines
  212 to 217 registers exactly one task, at 00:00.
\<close>

theorem load_config_value_or_default:
  "(\<forall>(key, d) \<in> set key_defaults.
      load_config env key =
        Some (case env key of None \<Rightarrow> d | Some v \<Rightarrow> if v = [] then d else PStr v)) \<and>
   map (map_of key_defaults)
     [''ILIAS_DOWNLOADER_USER_NAME'', ''ILIAS_DOWNLOADER_PASSWORD'',
      ''ILIAS_DOWNLOADER_SYNC_URL'', ''ILIAS_DOWNLOADER_CLIENT_ID'',
      ''ILIAS_DOWNLOADER_CLIENT_SECRET'', ''ILIAS_DOWNLOADER_CLOUD_OUTPUT_PATH'',
      ''ILIAS_DOWNLOADER_UPLOAD_TIMES''] =
     [Some PNone, Some PNone, Some PNone, Some PNone, Some PNone,
      Some (PStr ''output''), Some (PStr ''00:00'')] \<and>
   (\<exists>ts tr'. schedule_downloads (load_config (\<lambda>key. None)) tr = (Waiting ts, tr') \<and>
      tasks ts = [\<lparr>timeOfDay = (0, 0), action = Download_ilias_data\<rparr>])"
proof (intro conjI)
  show "\<forall>(key, d) \<in> set key_defaults.
      load_config env key =
        Some (case env key of None \<Rightarrow> d | Some v \<Rightarrow> if v = [] then d else PStr v)"
    using load_config_key by blast
  show "\<exists>ts tr'. schedule_downloads (load_config (\<lambda>key. None)) tr = (Waiting ts, tr') \<and>
      tasks ts = [\<lparr>timeOfDay = (0, 0), action = Download_ilias_data\<rparr>]"
    by (simp add: schedule_default)
qed (simp add: map_of_key_defaults)

theorem load_config_value_or_default_witness:
  "load_config [''ILIAS_DOWNLOADER_USER_NAME'' \<mapsto> ''student'',
                ''ILIAS_DOWNLOADER_PASSWORD'' \<mapsto> []]
       ''ILIAS_DOWNLOADER_USER_NAME'' = Some (PStr ''student'') \<and>
   load_config [''ILIAS_DOWNLOADER_USER_NAME'' \<mapsto> ''student'',
                ''ILIAS_DOWNLOADER_PASSWORD'' \<mapsto> []]
       ''ILIAS_DOWNLOADER_PASSWORD'' = Some PNone \<and>
   load_config [''ILIAS_DOWNLOADER_USER_NAME'' \<mapsto> ''student'',
                ''ILIAS_DOWNLOADER_PASSWORD'' \<mapsto> []]
       ''ILIAS_DOWNLOADER_UPLOAD_TIMES'' = Some (PStr ''00:00'')"
  using load_config_value_or_default
    [of "[''ILIAS_DOWNLOADER_USER_NAME'' \<mapsto> ''student'',
          ''ILIAS_DOWNLOADER_PASSWORD'' \<mapsto> []]" "[]"]
  unfolding key_defaults_def by simp

section \<open>Download and upload\<close>

lemma download_command_load_config:
  "\<exists>command. download_command (load_config env) w = Inr command"
  by (simp add: download_command_def cfg_items bind_err_def Let_def)

lemma download_command_not_rclone:
  "download_command cfg w = Inr command \<Longrightarrow> command \<noteq> upload_command r l p"
  by (auto simp: download_command_def bind_err_def Let_def upload_command_def
           split: sum.splits if_splits)

lemma download_ilias_data_result:
  "\<exists>command remote_name cloud_path.
     download_command (load_config (environ w)) w = Inr command \<and>
     cfg_item (load_config (environ w)) ''ILIAS_DOWNLOADER_RCLONE_REMOTE_NAME'' = Inr remote_name \<and>
     cfg_item (load_config (environ w)) ''ILIAS_DOWNLOADER_CLOUD_OUTPUT_PATH'' = Inr cloud_path \<and>
     command \<noteq> upload_command remote_name (PStr ''output'') cloud_path \<and>
     download_ilias_data (load_config (environ w)) w tr =
       (if run_returncode w (Suc (length tr)) command = 0
        then (Inr (),
              tr @ [Log Info ''Starting ilias download...'',
                    Run command,
                    Log Info ''Download from ilias completed. Starting upload to the cloud...'',
                    Run (upload_command remote_name (PStr ''output'') cloud_path),
                    Log Info ''Cloud upload completed.''])
        else (Inl (Exception download_failed),
              tr @ [Log Info ''Starting ilias download...'', Run command]))"
proof -
  obtain command where c: "download_command (load_config (environ w)) w = Inr command"
    using download_command_load_config by blast
  have ne: "command \<noteq> upload_command r (PStr ''output'') p" for r p
    using c by (rule download_command_not_rclone)
  show ?thesis
    using c ne
    by (simp add: download_ilias_data_def upload_rclone_def cfg_items subprocess_run_def
          log_def Let_def)
qed


text \<open>
  C5. \<open>download_ilias_data\<close> runs the downloader and then, if and only if its return
  code is 0, runs the cloud upload (\<open>upload_rclone\<close> with the local path \<open>output\<close> and
  the configured cloud output path); for every other return code it raises an Exception
  and nothing is run after the downloader.
\<close>

theorem upload_iff_returncode_zero:
  "\<exists>command remote_name cloud_path.
     download_command (load_config (environ w)) w = Inr command \<and>
     cfg_item (load_config (environ w)) ''ILIAS_DOWNLOADER_RCLONE_REMOTE_NAME'' = Inr remote_name \<and>
     cfg_item (load_config (environ w)) ''ILIAS_DOWNLOADER_CLOUD_OUTPUT_PATH'' = Inr cloud_path \<and>
     command \<noteq> upload_command remote_name (PStr ''output'') cloud_path \<and>
     download_ilias_data (load_config (environ w)) w tr =
       (if run_returncode w (Suc (length tr)) command = 0
        then (Inr (),
              tr @ [Log Info ''Starting ilias download...'',
                    Run command,
                    Log Info ''Download from ilias completed. Starting upload to the cloud...'',
                    Run (upload_command remote_name (PStr ''output'') cloud_path),
                    Log Info ''Cloud upload completed.''])
        else (Inl (Exception download_failed),
              tr @ [Log Info ''Starting ilias download...'', Run command]))"
  by (rule download_ilias_data_result)

text \<open>
  C10. Whatever return code the rclone subprocess gives, \<open>upload_rclone\<close> runs the
  rclone copy command of lines 165 and 166, written out here with the local path, the
  configured remote name and the remote path in their double quotes, then logs
  \<open>Cloud upload completed.\<close> and returns normally: a failed upload is neither raised
  nor reported. On a machine with an empty environment and an rclone that returns 1,
  the command is \<open>rclone copy --progress --ignore-existing "output"
  "IliasDL-Cloud-Drive:output"\<close>.
\<close>

theorem upload_rclone_runs_copy_whatever_returncode:
  "upload_rclone (load_config (environ w)) (w\<lparr>run_returncode := returncode\<rparr>)
       output_path_local output_path_remote tr =
     (Inr (),
      tr @ [Run (''rclone copy --progress --ignore-existing '' @
                 [CHR 0x22] @ py_str output_path_local @ [CHR 0x22] @ '' '' @
                 [CHR 0x22] @
                 py_str (py_or (os_getenv (environ w) ''ILIAS_DOWNLOADER_RCLONE_REMOTE_NAME'')
                           (PStr ''IliasDL-Cloud-Drive'')) @
                 '':'' @ py_str output_path_remote @ [CHR 0x22]),
            Log Info ''Cloud upload completed.'']) \<and>
   upload_rclone (load_config (\<lambda>key. None))
       (bare_world\<lparr>run_returncode := (\<lambda>n c. 1)\<rparr>) (PStr ''output'') (PStr ''output'') [] =
     (Inr (),
      [Run (''rclone copy --progress --ignore-existing '' @
            [CHR 0x22] @ ''output'' @ [CHR 0x22] @ '' '' @
            [CHR 0x22] @ ''IliasDL-Cloud-Drive:output'' @ [CHR 0x22]),
       Log Info ''Cloud upload completed.''])"
  by (simp add: upload_rclone_def upload_command_def dq_def cfg_items subprocess_run_def log_def
        py_or_getenv)

section \<open>The setup leaves the scheduler alone\<close>


lemma setup_loop_done:
  "setup_rclone cfg w tr = (Inr True, tr1) \<Longrightarrow> setup_loop cfg w tr = Some (Inr (), tr1)"
  by (subst setup_loop.simps) simp

lemma setup_loop_raise:
  "setup_rclone cfg w tr = (Inl e, tr1) \<Longrightarrow> setup_loop cfg w tr = Some (Inl e, tr1)"
  by (subst setup_loop.simps) simp

lemma host_quiet_append: "host_quiet (xs @ ys) = (host_quiet xs \<and> host_quiet ys)"
  by (auto simp: host_quiet_def download_invocations_def)

lemma host_quiet_Nil: "host_quiet []"
  by (simp add: host_quiet_def download_invocations_def)

lemma host_quiet_Cons:
  "host_quiet (e # es) =
     (\<not> scheduler_call e \<and> e \<noteq> Event_wait \<and> e \<noteq> Log Info ''Starting ilias download...'' \<and>
      host_quiet es)"
  by (auto simp: host_quiet_def download_invocations_def)

lemma install_rust_quiet:
  "install_rust w tr = (r, tr') \<Longrightarrow> \<exists>ext. tr' = tr @ ext \<and> host_quiet ext"
  by (auto simp: install_rust_def shutil_which_def subprocess_run_def log_def Let_def
        host_quiet_def download_invocations_def split: if_splits)

lemma install_downloader_quiet:
  "install_downloader w tr = (r, tr') \<Longrightarrow> \<exists>ext. tr' = tr @ ext \<and> host_quiet ext"
  by (auto simp: install_downloader_def subprocess_run_def log_def Let_def
        host_quiet_def download_invocations_def split: if_splits)

lemma setup_ilias_downloader_quiet:
  assumes "setup_ilias_downloader w tr = (r, tr')"
  shows "\<exists>ext. tr' = tr @ ext \<and> host_quiet ext"
proof (cases "unix_like w")
  case False
  with assms show ?thesis
    by (simp add: setup_ilias_downloader_def host_quiet_Nil)
next
  case True
  let ?tr1 = "tr @ [Which (path_home w @ ''/.cargo/bin/KIT-ILIAS-downloader'')]"
  let ?tr2 = "?tr1 @ [Dialog [''yes'', ''no''] (Some [''y'', ''n''])
                  (''The KIT-ILIAS-downloader is not installed on this system. '' @
                   ''Auto install it?'')]"
  have q2: "host_quiet (drop (length tr) ?tr2)" "host_quiet (drop (length tr) ?tr1)"
    by (simp_all add: host_quiet_def download_invocations_def)
  show ?thesis
  proof (cases "which_found w (length tr) (path_home w @ ''/.cargo/bin/KIT-ILIAS-downloader'')")
    case found: True
    with True assms have "tr' = ?tr1"
      by (simp add: setup_ilias_downloader_def shutil_which_def)
    then show ?thesis using q2 by simp
  next
    case nf: False
    show ?thesis
    proof (cases "dialog_choice w (length ?tr1) = PStr ''y''")
      case no: False
      with True nf assms have "tr' = ?tr2"
        by (simp add: setup_ilias_downloader_def shutil_which_def show_selection_dialog_def)
      then show ?thesis using q2 by simp
    next
      case yes: True
      obtain r3 tr3 where i3: "install_rust w ?tr2 = (r3, tr3)"
        by (cases "install_rust w ?tr2")
      then obtain e3 where e3: "tr3 = ?tr2 @ e3" "host_quiet e3"
        using install_rust_quiet by blast
      show ?thesis
      proof (cases r3)
        case (Inl e)
        with True nf yes i3 assms have "tr' = tr3"
          by (simp add: setup_ilias_downloader_def shutil_which_def show_selection_dialog_def)
        with e3 show ?thesis
          by (simp add: host_quiet_def download_invocations_def)
      next
        case (Inr u)
        with True nf yes i3 assms have "install_downloader w tr3 = (r, tr')"
          by (simp add: setup_ilias_downloader_def shutil_which_def show_selection_dialog_def)
        then obtain e4 where "tr' = tr3 @ e4" "host_quiet e4"
          using install_downloader_quiet by blast
        with e3 show ?thesis
          by (simp add: host_quiet_def download_invocations_def)
      qed
    qed
  qed
qed


lemma rclone_config_command_quiet:
  "rclone_config_command cfg r_name index tr = (r, tr') \<Longrightarrow>
     \<exists>ext. tr' = tr @ ext \<and> host_quiet ext"
  by (auto simp: rclone_config_command_def log_def host_quiet_def download_invocations_def
        Let_def split: pyval.splits if_splits sum.splits)

lemma setup_rclone_quiet:
  assumes "setup_rclone cfg w tr = (r, tr')"
  shows "\<exists>ext. tr' = tr @ ext \<and> host_quiet ext"
proof -
  have q: "host_quiet [Which c]" "host_quiet [Check_output c]" "host_quiet [Dialog a b d]"
      "host_quiet [Run c]" for a b c d
    by (simp_all add: host_quiet_def download_invocations_def)
  have rc: "rclone_config_command cfg r_name index t = (x, t') \<Longrightarrow>
      \<exists>ext. t' = t @ ext \<and> host_quiet ext" for r_name index t x t'
    by (rule rclone_config_command_quiet)
  show ?thesis
    using assms
    apply (simp add: setup_rclone_def shutil_which_def subprocess_check_output_def
        show_selection_dialog_def subprocess_run_def Let_def
        split: if_splits sum.splits option.splits prod.splits)
    apply (auto simp: host_quiet_Cons host_quiet_Nil host_quiet_append dest!: rc)
    done
qed

lemma setup_loop_quiet_snd:
  assumes "setup_loop cfg w tr = Some y"
  shows "\<exists>ext. snd y = tr @ ext \<and> host_quiet ext"
proof (rule setup_loop.raw_induct
    [where P = "\<lambda>cfg w tr y. \<exists>ext. snd y = tr @ ext \<and> host_quiet ext", OF _ assms])
  fix f :: "config \<Rightarrow> world \<Rightarrow> trace \<Rightarrow> ((error + unit) \<times> trace) option"
  fix cfg w tr y
  assume IH: "\<And>cfg w tr y. f cfg w tr = Some y \<Longrightarrow> \<exists>ext. snd y = tr @ ext \<and> host_quiet ext"
  assume body: "(case setup_rclone cfg w tr of
        (Inl e, tr1) \<Rightarrow> Some (Inl e, tr1)
      | (Inr set_up_complete, tr1) \<Rightarrow>
          if \<not> set_up_complete then f cfg w tr1 else Some (Inr (), tr1)) = Some y"
  obtain x t1 where s: "setup_rclone cfg w tr = (x, t1)"
    by (cases "setup_rclone cfg w tr")
  then obtain e1 where e1: "t1 = tr @ e1" "host_quiet e1"
    using setup_rclone_quiet by blast
  show "\<exists>ext. snd y = tr @ ext \<and> host_quiet ext"
  proof (cases x)
    case (Inl e)
    with body s e1 show ?thesis by auto
  next
    case (Inr b)
    show ?thesis
    proof (cases b)
      case True
      with body s e1 Inr show ?thesis by auto
    next
      case False
      with body s Inr have "f cfg w t1 = Some y" by simp
      then obtain e2 where "snd y = t1 @ e2" "host_quiet e2"
        using IH by blast
      with e1 show ?thesis
        by (auto simp: host_quiet_append)
    qed
  qed
qed

lemma setup_loop_quiet:
  "setup_loop cfg w tr = Some (r, tr') \<Longrightarrow> \<exists>ext. tr' = tr @ ext \<and> host_quiet ext"
  using setup_loop_quiet_snd [of cfg w tr "(r, tr')"] by simp

lemma setup_phase_quiet:
  "setup_phase cfg w tr = Some (r, tr') \<Longrightarrow> \<exists>ext. tr' = tr @ ext \<and> host_quiet ext"
proof -
  assume a: "setup_phase cfg w tr = Some (r, tr')"
  obtain x t1 where s: "setup_ilias_downloader w tr = (x, t1)"
    by (cases "setup_ilias_downloader w tr")
  then obtain e1 where e1: "t1 = tr @ e1" "host_quiet e1"
    using setup_ilias_downloader_quiet by blast
  show ?thesis
  proof (cases x)
    case (Inl e)
    with a s e1 show ?thesis by (auto simp: setup_phase_def)
  next
    case (Inr u)
    with a s have "setup_loop cfg w t1 = Some (r, tr')"
      by (simp add: setup_phase_def)
    then obtain e2 where "tr' = t1 @ e2" "host_quiet e2"
      using setup_loop_quiet by blast
    with e1 show ?thesis by (auto simp: host_quiet_append)
  qed
qed

lemma prelude_quiet: "host_quiet (prelude w)"
  by (simp add: prelude_def os_path_exists_def host_quiet_def download_invocations_def)

section \<open>Valid times and registration\<close>

lemma digit_val_digit_char: "d < 10 \<Longrightarrow> digit_val (digit_char d) = Some d"
  by (simp add: digit_val_def digit_char_def Let_def)

lemma digit_char_digit_val: "digit_val c = Some d \<Longrightarrow> digit_char d = c \<and> d < 10"
proof -
  assume a: "digit_val c = Some d"
  then have r: "48 \<le> (of_char c :: nat)" "(of_char c :: nat) \<le> 57" "d = of_char c - 48"
    by (auto simp: digit_val_def Let_def split: if_splits)
  then have "48 + d = of_char c" by simp
  then have "digit_char d = char_of (of_char c :: nat)"
    by (simp add: digit_char_def)
  then show ?thesis using r by simp
qed

lemma parse_hhmm: "h < 24 \<Longrightarrow> m < 60 \<Longrightarrow> parse_time_of_day (hhmm h m) = Some (h, m)"
proof -
  assume h: "h < 24" and m: "m < 60"
  have "h div 10 < 10" "h mod 10 < 10" "m div 10 < 10" "m mod 10 < 10"
    using h m by simp_all
  then show ?thesis
    using h m by (simp add: hhmm_def two_digits_def digit_val_digit_char)
qed

lemma parse_Some_hhmm:
  assumes "parse_time_of_day s = Some (h, m)"
  shows "s = hhmm h m \<and> h < 24 \<and> m < 60"
proof -
  from assms obtain h1 h2 c m1 m2 where s: "s = [h1, h2, c, m1, m2]"
    by (cases s rule: parse_time_of_day.cases) auto
  from assms s obtain a b x y where
    d: "digit_val h1 = Some a" "digit_val h2 = Some b" "digit_val m1 = Some x" "digit_val m2 = Some y"
    and r: "c = CHR '':''" "10 * a + b < 24" "10 * x + y < 60" "h = 10 * a + b" "m = 10 * x + y"
    by (auto split: option.splits if_splits)
  from d have e: "digit_char a = h1" "digit_char b = h2" "digit_char x = m1" "digit_char y = m2"
      "a < 10" "b < 10" "x < 10" "y < 10"
    using digit_char_digit_val by blast+
  then show ?thesis
    using s r by (simp add: hhmm_def two_digits_def)
qed

lemma valid_times_iff: "t \<in> set valid_times \<longleftrightarrow> (\<exists>h < 24. \<exists>m < 60. t = hhmm h m)"
proof -
  have "t \<in> set valid_times \<longleftrightarrow> (\<exists>h \<in> {0..<24}. \<exists>m \<in> {0..<60}. t = hhmm h m)"
    by (auto simp: valid_times_def)
  then show ?thesis by (simp add: Bex_def)
qed

lemma parse_valid_iff: "t \<in> set valid_times \<longleftrightarrow> parse_time_of_day t \<noteq> None"
proof
  assume "t \<in> set valid_times"
  then show "parse_time_of_day t \<noteq> None"
    by (auto simp: valid_times_iff parse_hhmm)
next
  assume "parse_time_of_day t \<noteq> None"
  then obtain h m where "parse_time_of_day t = Some (h, m)" by auto
  then show "t \<in> set valid_times"
    using parse_Some_hhmm valid_times_iff by blast
qed

lemma add_valid:
  assumes "t \<in> set valid_times"
  shows "\<exists>tk. add t a s = Inr (s\<lparr>tasks := tasks s @ [tk]\<rparr>) \<and> time_string tk = t \<and> action tk = a"
proof -
  from assms obtain h m where p: "parse_time_of_day t = Some (h, m)"
    using parse_valid_iff by fastforce
  then have t: "t = hhmm h m" using parse_Some_hhmm by blast
  let ?tk = "\<lparr>timeOfDay = (h, m), action = a\<rparr>"
  have "add t a s = Inr (s\<lparr>tasks := tasks s @ [?tk]\<rparr>)"
    using p by (simp add: add_def)
  moreover have "time_string ?tk = t" "action ?tk = a"
    using t by (simp_all add: time_string_def)
  ultimately show ?thesis by blast
qed

lemma add_invalid: "t \<notin> set valid_times \<Longrightarrow> add t a s = Inl ConfigurationError"
proof -
  assume "t \<notin> set valid_times"
  then have "parse_time_of_day t = None"
    using parse_valid_iff by blast
  then show ?thesis by (simp add: add_def)
qed

lemma register_all_valid:
  "\<forall>t \<in> set upload_times. t \<in> set valid_times \<Longrightarrow>
   \<exists>ts'. register_all upload_times ts tr = (Inr ts', tr @ map Sched_add upload_times) \<and>
     map (\<lambda>tk. (time_string tk, action tk)) (tasks ts') =
       map (\<lambda>tk. (time_string tk, action tk)) (tasks ts) @
       map (\<lambda>t. (t, Download_ilias_data)) upload_times \<and>
     running ts' = running ts"
proof (induction upload_times arbitrary: ts tr)
  case Nil
  then show ?case by simp
next
  case (Cons t upload_times)
  then obtain tk where tk: "add t Download_ilias_data ts = Inr (ts\<lparr>tasks := tasks ts @ [tk]\<rparr>)"
      "time_string tk = t" "action tk = Download_ilias_data"
    using add_valid [of t Download_ilias_data ts] by auto
  from Cons have "\<forall>t \<in> set upload_times. t \<in> set valid_times" by simp
  from Cons.IH [OF this, of "ts\<lparr>tasks := tasks ts @ [tk]\<rparr>" "tr @ [Sched_add t]"]
  show ?case using tk by auto
qed

lemma register_all_trace:
  "register_all upload_times ts tr = (r, tr') \<Longrightarrow>
     \<exists>k. tr' = tr @ map Sched_add (take k upload_times)"
proof (induction upload_times arbitrary: ts tr)
  case Nil
  then show ?case by simp
next
  case (Cons t upload_times)
  show ?case
  proof (cases "add t Download_ilias_data ts")
    case (Inl e)
    with Cons.prems have "tr' = tr @ map Sched_add (take 1 (t # upload_times))" by auto
    then show ?thesis by blast
  next
    case (Inr ts1)
    with Cons.prems have "register_all upload_times ts1 (tr @ [Sched_add t]) = (r, tr')" by simp
    from Cons.IH [OF this] obtain k where "tr' = (tr @ [Sched_add t]) @ map Sched_add (take k upload_times)"
      by blast
    then have "tr' = tr @ map Sched_add (take (Suc k) (t # upload_times))" by simp
    then show ?thesis by blast
  qed
qed

section \<open>The main program without credentials\<close>

lemma cfg_item_credentials:
  "environ w ''ILIAS_DOWNLOADER_USER_NAME'' = Some u \<Longrightarrow> u \<noteq> [] \<Longrightarrow>
     cfg_item (load_config (environ w)) ''ILIAS_DOWNLOADER_USER_NAME'' = Inr (PStr u)"
  "environ w ''ILIAS_DOWNLOADER_PASSWORD'' = Some p \<Longrightarrow> p \<noteq> [] \<Longrightarrow>
     cfg_item (load_config (environ w)) ''ILIAS_DOWNLOADER_PASSWORD'' = Inr (PStr p)"
  by (simp_all add: cfg_items py_or_getenv)

lemma main_with_credentials:
  assumes "environ w ''ILIAS_DOWNLOADER_USER_NAME'' = Some u" "u \<noteq> []"
    and "environ w ''ILIAS_DOWNLOADER_PASSWORD'' = Some p" "p \<noteq> []"
  shows "main w =
     (case setup_phase (load_config (environ w)) w (prelude w) of
        None \<Rightarrow> None
      | Some (Inl e, tr1) \<Rightarrow> Some (Crashed e, tr1)
      | Some (Inr u, tr1) \<Rightarrow> Some (first_run_and_schedule (load_config (environ w)) w tr1))"
  using assms by (simp add: main_def cfg_item_credentials Let_def)

lemma main_without_credentials:
  assumes "environ w ''ILIAS_DOWNLOADER_USER_NAME'' = None \<or>
           environ w ''ILIAS_DOWNLOADER_USER_NAME'' = Some [] \<or>
           environ w ''ILIAS_DOWNLOADER_PASSWORD'' = None \<or>
           environ w ''ILIAS_DOWNLOADER_PASSWORD'' = Some []"
  shows "main w =
     Some (Finished,
           prelude w @
           [Log Error
              (if environ w ''ILIAS_DOWNLOADER_USER_NAME'' = None \<or>
                  environ w ''ILIAS_DOWNLOADER_USER_NAME'' = Some []
               then ''The Ilias username has not been set''
               else ''The Ilias password has not been set'')])"
  using assms
  by (auto simp: main_def cfg_items py_or_getenv Let_def log_def split: option.splits)

lemma prelude_events:
  "list_all (\<lambda>e. \<not> setup_event e \<and> \<not> scheduler_call e \<and> e \<noteq> Event_wait) (prelude w)"
  by (simp add: prelude_def os_path_exists_def)

text \<open>
  C9. If the user name or the password resolves to a falsy value (the environment
  variable is unset or empty), the main program only logs an error: it ends normally
  after the log line, and before that line the trace holds no setup interaction, no
  download, no scheduler call and no wait.
\<close>

theorem no_credentials_no_startup:
  assumes "environ w ''ILIAS_DOWNLOADER_USER_NAME'' = None \<or>
           environ w ''ILIAS_DOWNLOADER_USER_NAME'' = Some [] \<or>
           environ w ''ILIAS_DOWNLOADER_PASSWORD'' = None \<or>
           environ w ''ILIAS_DOWNLOADER_PASSWORD'' = Some []"
  shows "main w =
           Some (Finished,
             prelude w @ [Log Error
                (if environ w ''ILIAS_DOWNLOADER_USER_NAME'' = None \<or>
                    environ w ''ILIAS_DOWNLOADER_USER_NAME'' = Some []
                 then ''The Ilias username has not been set''
                 else ''The Ilias password has not been set'')]) \<and>
         list_all (\<lambda>e. \<not> setup_event e \<and> \<not> scheduler_call e \<and> e \<noteq> Event_wait) (prelude w) \<and>
         download_invocations (prelude w) = 0"
proof -
  have "download_invocations (prelude w) = 0"
    using prelude_quiet by (simp add: host_quiet_def)
  then show ?thesis
    using main_without_credentials [OF assms] prelude_events by simp
qed

lemma bare_prelude:
  "prelude bare_world = [Path_exists ''./data'', Makedirs ''./data'', Basic_config]"
  by (simp add: prelude_def os_path_exists_def bare_world_def example_world_def)

theorem no_credentials_no_startup_witness:
  "main bare_world =
     Some (Finished,
       [Path_exists ''./data'', Makedirs ''./data'', Basic_config,
        Log Error ''The Ilias username has not been set''])"
proof -
  have e: "environ bare_world ''ILIAS_DOWNLOADER_USER_NAME'' = None"
    by (simp add: bare_world_def)
  then have h: "environ bare_world ''ILIAS_DOWNLOADER_USER_NAME'' = None \<or>
           environ bare_world ''ILIAS_DOWNLOADER_USER_NAME'' = Some [] \<or>
           environ bare_world ''ILIAS_DOWNLOADER_PASSWORD'' = None \<or>
           environ bare_world ''ILIAS_DOWNLOADER_PASSWORD'' = Some []"
    by simp
  show ?thesis
    using no_credentials_no_startup [OF h] e by (simp add: bare_prelude)
qed

section \<open>The first run\<close>

text \<open>What a download adds to the trace: its first line, then nothing of the scheduler.\<close>

lemma download_ilias_data_trace:
  "\<exists>r ext. download_ilias_data (load_config (environ w)) w tr =
       (r, tr @ Log Info ''Starting ilias download...'' # ext) \<and> host_quiet ext"
proof -
  from download_ilias_data_result [of w tr] obtain command remote_name cloud_path where
    d: "download_ilias_data (load_config (environ w)) w tr =
       (if run_returncode w (Suc (length tr)) command = 0
        then (Inr (),
              tr @ [Log Info ''Starting ilias download...'',
                    Run command,
                    Log Info ''Download from ilias completed. Starting upload to the cloud...'',
                    Run (upload_command remote_name (PStr ''output'') cloud_path),
                    Log Info ''Cloud upload completed.''])
        else (Inl (Exception download_failed),
              tr @ [Log Info ''Starting ilias download...'', Run command]))"
    by blast
  show ?thesis
    unfolding d by (simp add: host_quiet_Cons host_quiet_Nil)
qed

lemma upload_times_item:
  "\<exists>s. cfg_item (load_config env) ''ILIAS_DOWNLOADER_UPLOAD_TIMES'' = Inr (PStr s) \<and>
       load_config env ''ILIAS_DOWNLOADER_UPLOAD_TIMES'' = Some (PStr s)"
  by (simp add: cfg_items load_config_apply map_of_key_defaults py_or_getenv split: option.splits)

text \<open>What the scheduling adds to the trace, however it ends.\<close>

lemma schedule_downloads_trace:
  "\<exists>out l k. schedule_downloads (load_config (environ w)) tr =
       (out, tr @ l # New_TimeScheduler # k) \<and>
     \<not> scheduler_call l \<and> l \<noteq> Log Info ''Starting ilias download...'' \<and>
     download_invocations k = 0"
proof -
  obtain s where s: "cfg_item (load_config (environ w)) ''ILIAS_DOWNLOADER_UPLOAD_TIMES'' = Inr (PStr s)"
    using upload_times_item by blast
  let ?l = "Log_list Info ''Scheduling automatic downloads for '' (str_split s)"
  let ?tr2 = "tr @ [?l, New_TimeScheduler]"
  obtain r tr3 where r: "register_all (str_split s) TimeScheduler ?tr2 = (r, tr3)"
    by (cases "register_all (str_split s) TimeScheduler ?tr2")
  then obtain k where k: "tr3 = ?tr2 @ map Sched_add (take k (str_split s))"
    using register_all_trace by blast
  have z: "download_invocations (map Sched_add xs @ ys) = download_invocations ys" for xs ys
    by (induction xs) (simp_all add: download_invocations_def)
  have z0: "download_invocations (map Sched_add xs) = 0" for xs
    using z [of xs "[]"] by (simp add: download_invocations_def)
  show ?thesis
  proof (cases r)
    case (Inl e)
    with s r k have "schedule_downloads (load_config (environ w)) tr =
        (Crashed e, tr @ ?l # New_TimeScheduler # map Sched_add (take k (str_split s)))"
      by (simp add: schedule_downloads_def Let_def)
    then show ?thesis using z0 by auto
  next
    case (Inr ts)
    show ?thesis
    proof (cases "start ts")
      case (Inl e)
      with s r k Inr have "schedule_downloads (load_config (environ w)) tr =
        (Crashed e, tr @ ?l # New_TimeScheduler # (map Sched_add (take k (str_split s)) @ [Sched_start]))"
        by (simp add: schedule_downloads_def Let_def)
      moreover have "download_invocations (map Sched_add (take k (str_split s)) @ [Sched_start]) = 0"
        by (simp add: z) (simp add: download_invocations_def)
      ultimately show ?thesis by auto
    next
      case (Inr ts1)
      with s r k \<open>r = Inr ts\<close> have "schedule_downloads (load_config (environ w)) tr =
        (Waiting ts1, tr @ ?l # New_TimeScheduler # (map Sched_add (take k (str_split s)) @ [Sched_start, Event_wait]))"
        by (simp add: schedule_downloads_def Let_def)
      moreover have "download_invocations (map Sched_add (take k (str_split s)) @ [Sched_start, Event_wait]) = 0"
        by (simp add: z) (simp add: download_invocations_def)
      ultimately show ?thesis by auto
    qed
  qed
qed

lemma host_quiet_takeWhile:
  "host_quiet tr \<Longrightarrow>
     takeWhile (\<lambda>e. \<not> scheduler_call e) (tr @ rest) = tr @ takeWhile (\<lambda>e. \<not> scheduler_call e) rest"
  by (induction tr) (simp_all add: host_quiet_Cons)

lemma download_invocations_append:
  "download_invocations (xs @ ys) = download_invocations xs + download_invocations ys"
  by (simp add: download_invocations_def)

lemma host_quiet_invocations: "host_quiet tr \<Longrightarrow> download_invocations tr = 0"
  by (simp add: host_quiet_def)

lemma host_quiet_no_call: "host_quiet tr \<Longrightarrow> e \<in> set tr \<Longrightarrow> \<not> scheduler_call e"
  by (simp add: host_quiet_def list_all_iff)

lemma first_run_and_schedule_trace:
  assumes q: "host_quiet tr"
  shows "\<exists>out rest. first_run_and_schedule (load_config (environ w)) w tr =
           (out, tr @ Path_exists ''output'' # rest) \<and>
      download_invocations (tr @ Path_exists ''output'' # rest) =
        (if path_exists w (length tr) ''output'' then 0 else 1) \<and>
      download_invocations
        (takeWhile (\<lambda>e. \<not> scheduler_call e) (tr @ Path_exists ''output'' # rest)) =
        (if path_exists w (length tr) ''output'' then 0 else 1) \<and>
      (path_exists w (length tr) ''output'' \<or>
       take 1 rest = [Log Info ''Starting ilias download...''])"
proof -
  let ?cfg = "load_config (environ w)"
  let ?Q = "\<lambda>e. \<not> scheduler_call e"
  let ?start = "Log Info ''Starting ilias download...''"
  let ?tr1 = "tr @ [Path_exists ''output'']"
  have q1: "host_quiet ?tr1"
    using q by (simp add: host_quiet_append host_quiet_Cons host_quiet_Nil)
  have tw: "takeWhile ?Q (xs @ ys) = xs @ takeWhile ?Q ys" if "host_quiet xs" for xs ys
    using that by (intro takeWhile_append2) (auto dest: host_quiet_no_call)
  have inv0: "download_invocations xs = 0" if "host_quiet xs" for xs
    using that by (rule host_quiet_invocations)
  show ?thesis
  proof (cases "path_exists w (length tr) ''output''")
    case True
    obtain out l k where s: "schedule_downloads ?cfg ?tr1 = (out, ?tr1 @ l # New_TimeScheduler # k)"
      and l: "\<not> scheduler_call l" "l \<noteq> ?start" and k: "download_invocations k = 0"
      using schedule_downloads_trace [of w ?tr1] by blast
    have f: "first_run_and_schedule ?cfg w tr =
        (out, tr @ Path_exists ''output'' # (l # New_TimeScheduler # k))"
      using True s by (simp add: first_run_and_schedule_def os_path_exists_def)
    have a: "download_invocations (tr @ Path_exists ''output'' # (l # New_TimeScheduler # k)) = 0"
      using inv0 [OF q1] k l by (simp add: download_invocations_def)
    have "takeWhile ?Q (?tr1 @ (l # New_TimeScheduler # k)) = ?tr1 @ [l]"
      using l by (simp add: tw [OF q])
    then have b: "download_invocations
        (takeWhile ?Q (tr @ Path_exists ''output'' # (l # New_TimeScheduler # k))) = 0"
      using inv0 [OF q1] l by (simp add: download_invocations_def)
    show ?thesis using True f a b by auto
  next
    case False
    obtain r ext where d: "download_ilias_data ?cfg w ?tr1 = (r, ?tr1 @ ?start # ext)"
      and e: "host_quiet ext"
      using download_ilias_data_trace [of w ?tr1] by blast
    have i1: "download_invocations (?tr1 @ ?start # ext) = 1"
      using inv0 [OF q1] inv0 [OF e] by (simp add: download_invocations_def)
    show ?thesis
    proof (cases r)
      case (Inl err)
      have f: "first_run_and_schedule ?cfg w tr =
          (Crashed err, tr @ Path_exists ''output'' # (?start # ext))"
        using False d Inl by (simp add: first_run_and_schedule_def os_path_exists_def)
      have "takeWhile ?Q ext = ext"
        using e by (auto simp: takeWhile_eq_all_conv dest: host_quiet_no_call)
      then have t: "takeWhile ?Q (tr @ Path_exists ''output'' # (?start # ext)) =
          tr @ Path_exists ''output'' # (?start # ext)"
        by (simp add: tw [OF q])
      have b: "download_invocations
          (takeWhile ?Q (tr @ Path_exists ''output'' # (?start # ext))) = 1"
        unfolding t using i1 by simp
      show ?thesis using False f i1 b by auto
    next
      case (Inr u)
      let ?tr2 = "?tr1 @ ?start # ext"
      obtain out l k where s: "schedule_downloads ?cfg ?tr2 = (out, ?tr2 @ l # New_TimeScheduler # k)"
        and l: "\<not> scheduler_call l" "l \<noteq> ?start" and k: "download_invocations k = 0"
        using schedule_downloads_trace [of w ?tr2] by blast
      let ?rest = "?start # ext @ l # New_TimeScheduler # k"
      have f: "first_run_and_schedule ?cfg w tr = (out, tr @ Path_exists ''output'' # ?rest)"
        using False d Inr s by (simp add: first_run_and_schedule_def os_path_exists_def)
      have a: "download_invocations (tr @ Path_exists ''output'' # ?rest) = 1"
        using inv0 [OF q1] inv0 [OF e] k l by (simp add: download_invocations_def)
      have "takeWhile ?Q (?tr1 @ [?start] @ ext @ (l # New_TimeScheduler # k)) =
          ?tr1 @ [?start] @ ext @ [l]"
        using l by (simp add: tw [OF q] tw [OF e])
      then have b: "download_invocations (takeWhile ?Q (tr @ Path_exists ''output'' # ?rest)) = 1"
        using inv0 [OF q1] inv0 [OF e] l by (simp add: download_invocations_def)
      show ?thesis using False f a b by auto
    qed
  qed
qed

lemma setup_complete_quiet:
  "setup_phase cfg w (prelude w) = Some (r, tr) \<Longrightarrow> host_quiet tr"
  using setup_phase_quiet [of cfg w "prelude w" r tr] prelude_quiet [of w]
  by (auto simp: host_quiet_append)

text \<open>
  C4. With user name and password set and the setup complete, the host invokes
  \<open>download_ilias_data\<close> once, right after the check of the path \<open>output\<close> and before
  any call of the scheduler, if and only if that path does not exist; if it exists the
  host invokes no download at all.
\<close>

theorem first_run_download_iff_no_output:
  assumes "environ w ''ILIAS_DOWNLOADER_USER_NAME'' = Some u" "u \<noteq> []"
    and "environ w ''ILIAS_DOWNLOADER_PASSWORD'' = Some p" "p \<noteq> []"
    and "setup_phase (load_config (environ w)) w (prelude w) = Some (Inr (), tr)"
  shows "\<exists>out rest. main w = Some (out, tr @ Path_exists ''output'' # rest) \<and>
      download_invocations (tr @ Path_exists ''output'' # rest) =
        (if path_exists w (length tr) ''output'' then 0 else 1) \<and>
      download_invocations
        (takeWhile (\<lambda>e. \<not> scheduler_call e) (tr @ Path_exists ''output'' # rest)) =
        (if path_exists w (length tr) ''output'' then 0 else 1) \<and>
      (path_exists w (length tr) ''output'' \<or>
       take 1 rest = [Log Info ''Starting ilias download...''])"
proof -
  have "main w = Some (first_run_and_schedule (load_config (environ w)) w tr)"
    using assms by (simp add: main_with_credentials)
  moreover have "host_quiet tr"
    using assms(5) by (rule setup_complete_quiet)
  ultimately show ?thesis
    using first_run_and_schedule_trace [of tr w] by simp
qed

section \<open>Scheduling the downloads\<close>

lemma schedule_downloads_valid:
  assumes "cfg ''ILIAS_DOWNLOADER_UPLOAD_TIMES'' = Some (PStr s)"
    and "\<forall>t \<in> set (str_split s). t \<in> set valid_times"
  shows "\<exists>ts. schedule_downloads cfg tr =
           (Waiting ts,
            tr @ [Log_list Info ''Scheduling automatic downloads for '' (str_split s),
                  New_TimeScheduler] @
            map Sched_add (str_split s) @ [Sched_start, Event_wait]) \<and>
         map (\<lambda>tk. (time_string tk, action tk)) (tasks ts) =
           map (\<lambda>t. (t, Download_ilias_data)) (str_split s) \<and>
         running ts"
proof -
  let ?tr2 = "tr @ [Log_list Info ''Scheduling automatic downloads for '' (str_split s),
                  New_TimeScheduler]"
  obtain ts' where r: "register_all (str_split s) TimeScheduler ?tr2 =
        (Inr ts', ?tr2 @ map Sched_add (str_split s))"
    and m: "map (\<lambda>tk. (time_string tk, action tk)) (tasks ts') =
       map (\<lambda>tk. (time_string tk, action tk)) (tasks (TimeScheduler :: action scheduler)) @
       map (\<lambda>t. (t, Download_ilias_data)) (str_split s)"
    and n: "running ts' = running (TimeScheduler :: action scheduler)"
    using register_all_valid [OF assms(2), of TimeScheduler ?tr2] by blast
  have "\<not> running ts'" using n by (simp add: TimeScheduler_def)
  then have st: "start ts' = Inr (ts'\<lparr>running := True\<rparr>)"
    by (simp add: start_def)
  have "schedule_downloads cfg tr =
      (Waiting (ts'\<lparr>running := True\<rparr>), ?tr2 @ map Sched_add (str_split s) @ [Sched_start, Event_wait])"
    using assms(1) r st by (simp add: schedule_downloads_def cfg_item_def Let_def)
  moreover have "map (\<lambda>tk. (time_string tk, action tk)) (tasks (ts'\<lparr>running := True\<rparr>)) =
       map (\<lambda>t. (t, Download_ilias_data)) (str_split s)"
    using m by (simp add: TimeScheduler_def)
  ultimately show ?thesis by auto
qed

lemma split_example: "str_split ''06:30 18:00'' = [''06:30'', ''18:00'']"
  by (simp add: str_split_def is_space_def)

lemma valid_example: "''06:30'' \<in> set valid_times" "''18:00'' \<in> set valid_times"
  by (simp_all add: parse_valid_iff digit_val_def)


lemma register_all_as_with: "register_all upload_times ts tr = register_all_with add upload_times ts tr"
  by (induction upload_times arbitrary: ts tr) (simp_all split: sum.splits)

text \<open>
  The host of lines 212 to 220 with the scheduler modelled from the specification is the
  host with the scheduler as a parameter, at that scheduler.
\<close>

lemma schedule_downloads_as_with:
  "schedule_downloads cfg tr =
     (case schedule_with TimeScheduler add start cfg tr of
        (Inl e, tr1) \<Rightarrow> (Crashed e, tr1)
      | (Inr ts, tr1) \<Rightarrow> (Waiting ts, tr1))"
  by (simp add: schedule_downloads_def schedule_with_def register_all_as_with Let_def
        split: sum.splits pyval.splits prod.splits)



lemma host_quiet_filter: "host_quiet tr \<Longrightarrow> filter scheduler_call tr = []"
  by (auto simp: filter_empty_conv dest: host_quiet_no_call)

lemma host_quiet_no_wait: "host_quiet tr \<Longrightarrow> Event_wait \<notin> set tr"
  by (auto simp: host_quiet_def list_all_iff)

lemma configured_times_split:
  "load_config (environ w) ''ILIAS_DOWNLOADER_UPLOAD_TIMES'' = Some (PStr s) \<Longrightarrow>
     configured_times w = str_split s"
  by (simp add: configured_times_def)

text \<open>
  C2, amended. After configuration loading and setup succeed, and provided the download
  of the first run (made when \<open>output\<close> does not exist) does not raise and every
  configured time is a valid \<open>HH:MM\<close>, the host constructs exactly one TimeScheduler,
  registers one task for each configured time, calls \<open>start()\<close> exactly once and then
  waits for ever: nothing follows the wait, and no scheduler call follows \<open>start()\<close>.
\<close>

theorem host_starts_one_scheduler:
  assumes "environ w ''ILIAS_DOWNLOADER_USER_NAME'' = Some u" "u \<noteq> []"
    and "environ w ''ILIAS_DOWNLOADER_PASSWORD'' = Some p" "p \<noteq> []"
    and "setup_phase (load_config (environ w)) w (prelude w) = Some (Inr (), tr)"
    and "path_exists w (length tr) ''output'' \<or>
         (\<exists>tr'. download_ilias_data (load_config (environ w)) w (tr @ [Path_exists ''output'']) =
            (Inr (), tr'))"
    and "\<forall>t \<in> set (configured_times w). t \<in> set valid_times"
  shows "\<exists>ts before. main w = Some (Waiting ts, before @ [Sched_start, Event_wait]) \<and>
      filter scheduler_call before = New_TimeScheduler # map Sched_add (configured_times w) \<and>
      Event_wait \<notin> set before \<and>
      map (\<lambda>tk. (time_string tk, action tk)) (tasks ts) =
        map (\<lambda>t. (t, Download_ilias_data)) (configured_times w) \<and>
      running ts"
proof -
  let ?cfg = "load_config (environ w)"
  let ?tr1 = "tr @ [Path_exists ''output'']"
  have m: "main w = Some (first_run_and_schedule ?cfg w tr)"
    using assms(1-5) by (simp add: main_with_credentials)
  have "host_quiet tr"
    using assms(5) by (rule setup_complete_quiet)
  then have q1: "host_quiet ?tr1"
    by (simp add: host_quiet_append host_quiet_Cons host_quiet_Nil)
  obtain s where s: "?cfg ''ILIAS_DOWNLOADER_UPLOAD_TIMES'' = Some (PStr s)"
    using upload_times_item by blast
  then have ct: "configured_times w = str_split s"
    by (rule configured_times_split)
  let ?sched = "[Log_list Info ''Scheduling automatic downloads for '' (str_split s),
                  New_TimeScheduler] @ map Sched_add (str_split s)"
  have v: "\<forall>t \<in> set (str_split s). t \<in> set valid_times"
    using assms(7) ct by simp
  have sched: "\<exists>ts. schedule_downloads ?cfg t0 = (Waiting ts, (t0 @ ?sched) @ [Sched_start, Event_wait]) \<and>
         map (\<lambda>tk. (time_string tk, action tk)) (tasks ts) =
           map (\<lambda>t. (t, Download_ilias_data)) (str_split s) \<and> running ts" for t0
    using schedule_downloads_valid [of ?cfg s t0] s v by simp
  have fs: "filter scheduler_call (t0 @ ?sched) = New_TimeScheduler # map Sched_add (str_split s)"
    if "host_quiet t0" for t0
    using host_quiet_filter [OF that] by (simp add: filter_map comp_def)
  have nw: "Event_wait \<notin> set (t0 @ ?sched)" if "host_quiet t0" for t0
    using host_quiet_no_wait [OF that] by auto
  show ?thesis
  proof (cases "path_exists w (length tr) ''output''")
    case True
    then have "first_run_and_schedule ?cfg w tr = schedule_downloads ?cfg ?tr1"
      by (simp add: first_run_and_schedule_def os_path_exists_def)
    with m sched [of ?tr1] fs [OF q1] nw [OF q1] ct show ?thesis
      by (metis (no_types, lifting))
  next
    case False
    obtain r ext where d: "download_ilias_data ?cfg w ?tr1 =
        (r, ?tr1 @ Log Info ''Starting ilias download...'' # ext)" and e: "host_quiet ext"
      using download_ilias_data_trace [of w ?tr1] by blast
    let ?tr2 = "?tr1 @ Log Info ''Starting ilias download...'' # ext"
    from False assms(6) d have r: "r = Inr ()" by auto
    have f2: "filter scheduler_call ?tr2 = []" "Event_wait \<notin> set ?tr2"
      using host_quiet_filter [OF q1] host_quiet_filter [OF e]
        host_quiet_no_wait [OF q1] host_quiet_no_wait [OF e] by auto
    have "first_run_and_schedule ?cfg w tr = schedule_downloads ?cfg ?tr2"
      using False d r by (simp add: first_run_and_schedule_def os_path_exists_def)
    moreover have "filter scheduler_call (?tr2 @ ?sched) =
        New_TimeScheduler # map Sched_add (str_split s)"
      using f2(1) by (simp add: filter_map comp_def)
    moreover have "Event_wait \<notin> set (?tr2 @ ?sched)"
      using f2(2) by auto
    ultimately show ?thesis
      using m sched [of ?tr2] ct by (metis (no_types, lifting))
  qed
qed

section \<open>The example machines\<close>

lemma example_environ:
  "environ example_world = example_env"
  "environ first_run_world = example_env"
  "environ failing_world = example_env"
  by (simp_all add: example_world_def first_run_world_def failing_world_def)

lemma example_credentials:
  "example_env ''ILIAS_DOWNLOADER_USER_NAME'' = Some ''student''"
  "example_env ''ILIAS_DOWNLOADER_PASSWORD'' = Some ''secret''"
  "example_env ''ILIAS_DOWNLOADER_UPLOAD_TIMES'' = Some ''06:30 18:00''"
  "example_env ''ILIAS_DOWNLOADER_RCLONE_REMOTE_NAME'' = None"
  "example_env ''ILIAS_DOWNLOADER_CLOUD_OUTPUT_PATH'' = None"
  "example_env ''ILIAS_DOWNLOADER_SYNC_URL'' = None"
  "example_env ''ILIAS_DOWNLOADER_JOBS'' = None"
  "example_env ''ILIAS_DOWNLOADER_RATE'' = None"
  by (simp_all add: example_env_def)

lemma example_setup:
  assumes "environ w = example_env" "sys_platform w = ''linux''" "path_home w = ''/home/student''"
    and "which_found w = (\<lambda>n c. True)"
    and "check_output_stdout w = (\<lambda>n c. Some (''IliasDL-Cloud-Drive:'' @ [CHR 0x0A]))"
    and "\<not> path_exists w 0 ''./data''"
  shows "setup_phase (load_config (environ w)) w (prelude w) = Some (Inr (), example_setup_trace)"
proof -
  have p: "prelude w = [Path_exists ''./data'', Makedirs ''./data'', Basic_config]"
    using assms by (simp add: prelude_def os_path_exists_def)
  have u: "unix_like w"
    using assms by (simp add: unix_like_def startswith_def)
  let ?t1 = "[Path_exists ''./data'', Makedirs ''./data'', Basic_config,
      Which ''/home/student/.cargo/bin/KIT-ILIAS-downloader'']"
  have s1: "setup_ilias_downloader w (prelude w) = (Inr (), ?t1)"
    using assms u by (simp add: p setup_ilias_downloader_def shutil_which_def)
  have "setup_rclone (load_config (environ w)) w ?t1 = (Inr True, example_setup_trace)"
    using assms
    by (simp add: setup_rclone_def shutil_which_def cfg_items py_or_getenv example_credentials
          subprocess_check_output_def str_split_def is_space_def example_setup_trace_def)
  then have "setup_loop (load_config (environ w)) w ?t1 = Some (Inr (), example_setup_trace)"
    by (rule setup_loop_done)
  then show ?thesis
    using s1 by (simp add: setup_phase_def)
qed

lemma example_setups:
  "setup_phase (load_config (environ example_world)) example_world (prelude example_world) =
     Some (Inr (), example_setup_trace)"
  "setup_phase (load_config (environ first_run_world)) first_run_world (prelude first_run_world) =
     Some (Inr (), example_setup_trace)"
  "setup_phase (load_config (environ failing_world)) failing_world (prelude failing_world) =
     Some (Inr (), example_setup_trace)"
  by (rule example_setup; simp add: example_world_def first_run_world_def failing_world_def)+

lemma example_times: "configured_times example_world = [''06:30'', ''18:00'']"
  by (simp add: configured_times_def example_environ load_config_apply map_of_key_defaults
        py_or_getenv example_credentials split_example)

theorem host_starts_one_scheduler_witness:
  "\<exists>ts before. main example_world = Some (Waiting ts, before @ [Sched_start, Event_wait]) \<and>
      filter scheduler_call before =
        [New_TimeScheduler, Sched_add ''06:30'', Sched_add ''18:00''] \<and>
      Event_wait \<notin> set before \<and>
      map (\<lambda>tk. (time_string tk, action tk)) (tasks ts) =
        [(''06:30'', Download_ilias_data), (''18:00'', Download_ilias_data)] \<and>
      running ts"
proof -
  have c: "environ example_world ''ILIAS_DOWNLOADER_USER_NAME'' = Some ''student''"
      "''student'' \<noteq> []"
      "environ example_world ''ILIAS_DOWNLOADER_PASSWORD'' = Some ''secret''"
      "''secret'' \<noteq> []"
    by (simp_all add: example_environ example_credentials)
  have o: "path_exists example_world (length example_setup_trace) ''output'' \<or>
         (\<exists>tr'. download_ilias_data (load_config (environ example_world)) example_world
             (example_setup_trace @ [Path_exists ''output'']) = (Inr (), tr'))"
    by (simp add: example_world_def)
  have v: "\<forall>t \<in> set (configured_times example_world). t \<in> set valid_times"
    by (simp add: example_times valid_example)
  show ?thesis
    using host_starts_one_scheduler [OF c example_setups(1) o v]
    by (simp add: example_times)
qed

text \<open>
  The claim C2 as stated fails: on a first run whose downloader exits with status 1,
  configuration loading and setup succeed, and the exception of
  \<open>download_ilias_data\<close> ends the program before any scheduler is constructed.
\<close>

theorem failed_first_download_no_scheduler:
  "main failing_world =
     Some (Crashed (Exception download_failed),
       example_setup_trace @
       [Path_exists ''output'', Log Info ''Starting ilias download...'',
        Run (''~/.cargo/bin/KIT-ILIAS-downloader -U student -P '' @ dq @ ''secret'' @ dq @
             '' -o '' @ dq @ ''output'' @ dq @ '' --jobs  10 --rate 100'')])"
proof -
  have c: "environ failing_world ''ILIAS_DOWNLOADER_USER_NAME'' = Some ''student''"
      "''student'' \<noteq> []"
      "environ failing_world ''ILIAS_DOWNLOADER_PASSWORD'' = Some ''secret''"
      "''secret'' \<noteq> []"
    by (simp_all add: example_environ example_credentials)
  have u: "unix_like failing_world"
    by (simp add: unix_like_def startswith_def failing_world_def first_run_world_def
          example_world_def)
  have n: "show_int 10 = ''10''" "show_int 100 = ''100''"
    by code_simp+
  have cmd: "download_command (load_config (environ failing_world)) failing_world =
      Inr (''~/.cargo/bin/KIT-ILIAS-downloader -U student -P '' @ dq @ ''secret'' @ dq @
             '' -o '' @ dq @ ''output'' @ dq @ '' --jobs  10 --rate 100'')"
    using u by (simp add: download_command_def cfg_items py_or_getenv example_environ
          example_credentials bind_err_def n)
  have "first_run_and_schedule (load_config (environ failing_world)) failing_world
      example_setup_trace =
     (Crashed (Exception download_failed),
       example_setup_trace @
       [Path_exists ''output'', Log Info ''Starting ilias download...'',
        Run (''~/.cargo/bin/KIT-ILIAS-downloader -U student -P '' @ dq @ ''secret'' @ dq @
             '' -o '' @ dq @ ''output'' @ dq @ '' --jobs  10 --rate 100'')])"
    by (simp add: first_run_and_schedule_def os_path_exists_def download_ilias_data_def cmd
          subprocess_run_def log_def)
      (simp add: failing_world_def first_run_world_def example_world_def)
  then show ?thesis
    using c by (simp add: main_with_credentials example_setups)
qed

theorem first_run_download_iff_no_output_witness:
  "\<exists>out rest.
      main first_run_world = Some (out, example_setup_trace @ Path_exists ''output'' # rest) \<and>
      download_invocations (example_setup_trace @ Path_exists ''output'' # rest) = 1 \<and>
      download_invocations
        (takeWhile (\<lambda>e. \<not> scheduler_call e)
           (example_setup_trace @ Path_exists ''output'' # rest)) = 1 \<and>
      take 1 rest = [Log Info ''Starting ilias download...'']"
proof -
  have c: "environ first_run_world ''ILIAS_DOWNLOADER_USER_NAME'' = Some ''student''"
      "''student'' \<noteq> []"
      "environ first_run_world ''ILIAS_DOWNLOADER_PASSWORD'' = Some ''secret''"
      "''secret'' \<noteq> []"
    by (simp_all add: example_environ example_credentials)
  have n: "\<not> path_exists first_run_world (length example_setup_trace) ''output''"
    by (simp add: first_run_world_def)
  show ?thesis
    using first_run_download_iff_no_output [OF c example_setups(2)] n by simp
qed

section \<open>Rejected times\<close>

lemma register_all_invalid:
  "\<exists>t \<in> set upload_times. t \<notin> set valid_times \<Longrightarrow>
     \<exists>k. register_all upload_times ts tr =
       (Inl ConfigurationError, tr @ map Sched_add (take k upload_times))"
proof (induction upload_times arbitrary: ts tr)
  case Nil
  then show ?case by simp
next
  case (Cons t upload_times)
  show ?case
  proof (cases "t \<in> set valid_times")
    case False
    then have "register_all (t # upload_times) ts tr =
        (Inl ConfigurationError, tr @ map Sched_add (take 1 (t # upload_times)))"
      by (simp add: add_invalid)
    then show ?thesis by blast
  next
    case True
    then obtain ts1 where a: "add t Download_ilias_data ts = Inr ts1"
      using add_valid [of t Download_ilias_data ts] by auto
    from True Cons.prems have "\<exists>t \<in> set upload_times. t \<notin> set valid_times" by auto
    from Cons.IH [OF this, of ts1 "tr @ [Sched_add t]"] obtain k where
      "register_all upload_times ts1 (tr @ [Sched_add t]) =
         (Inl ConfigurationError, (tr @ [Sched_add t]) @ map Sched_add (take k upload_times))"
      by blast
    with a have "register_all (t # upload_times) ts tr =
        (Inl ConfigurationError, tr @ map Sched_add (take (Suc k) (t # upload_times)))"
      by simp
    then show ?thesis by blast
  qed
qed

lemma schedule_downloads_invalid:
  assumes "cfg ''ILIAS_DOWNLOADER_UPLOAD_TIMES'' = Some (PStr str)"
    and "t \<in> set (str_split str)" "t \<notin> set valid_times"
  shows "\<exists>k. schedule_downloads cfg tr =
     (Crashed ConfigurationError,
      tr @ Log_list Info ''Scheduling automatic downloads for '' (str_split str) #
           New_TimeScheduler # map Sched_add (take k (str_split str)))"
proof -
  from assms(2,3) have "\<exists>t \<in> set (str_split str). t \<notin> set valid_times" by blast
  from register_all_invalid [OF this, of TimeScheduler
      "tr @ [Log_list Info ''Scheduling automatic downloads for '' (str_split str),
             New_TimeScheduler]"]
  obtain k where "register_all (str_split str) TimeScheduler
      (tr @ [Log_list Info ''Scheduling automatic downloads for '' (str_split str),
             New_TimeScheduler]) =
    (Inl ConfigurationError,
     (tr @ [Log_list Info ''Scheduling automatic downloads for '' (str_split str),
             New_TimeScheduler]) @ map Sched_add (take k (str_split str)))"
    by blast
  then have "schedule_downloads cfg tr =
     (Crashed ConfigurationError,
      tr @ Log_list Info ''Scheduling automatic downloads for '' (str_split str) #
           New_TimeScheduler # map Sched_add (take k (str_split str)))"
    using assms(1) by (simp add: schedule_downloads_def cfg_item_def Let_def)
  then show ?thesis by blast
qed

text \<open>
  C6. For every time string that is not a valid \<open>HH:MM\<close> (an hour outside 0 to 23, a
  minute outside 0 to 59, or a text of another form), \<open>add\<close> fails with
  ConfigurationError and returns no scheduler: nothing is registered and nothing is
  started. In the host, whose loop does not catch the error, the run ends with it after
  the registrations before the invalid time, and \<open>start()\<close> is not called.
\<close>

theorem add_rejects_invalid_time:
  assumes "t \<notin> set valid_times"
  shows "add t act s = Inl ConfigurationError \<and>
     (\<forall>cfg str tr.
        cfg ''ILIAS_DOWNLOADER_UPLOAD_TIMES'' = Some (PStr str) \<and> t \<in> set (str_split str) \<longrightarrow>
        (\<exists>k. schedule_downloads cfg tr =
           (Crashed ConfigurationError,
            tr @ Log_list Info ''Scheduling automatic downloads for '' (str_split str) #
                 New_TimeScheduler # map Sched_add (take k (str_split str)))))"
proof (intro conjI allI impI)
  show "add t act s = Inl ConfigurationError"
    using assms by (rule add_invalid)
next
  fix cfg str tr
  assume "cfg ''ILIAS_DOWNLOADER_UPLOAD_TIMES'' = Some (PStr str) \<and> t \<in> set (str_split str)"
  then show "\<exists>k. schedule_downloads cfg tr =
           (Crashed ConfigurationError,
            tr @ Log_list Info ''Scheduling automatic downloads for '' (str_split str) #
                 New_TimeScheduler # map Sched_add (take k (str_split str)))"
    using schedule_downloads_invalid [of cfg str t tr] assms by simp
qed

lemma invalid_examples: "''25:61'' \<notin> set valid_times" "''noon'' \<notin> set valid_times"
  by (simp_all add: parse_valid_iff digit_val_def)

theorem add_rejects_invalid_time_witness:
  "add ''25:61'' Download_ilias_data TimeScheduler = Inl ConfigurationError \<and>
   add ''noon'' Download_ilias_data TimeScheduler = Inl ConfigurationError"
  using add_rejects_invalid_time [OF invalid_examples(1), of Download_ilias_data TimeScheduler]
    add_rejects_invalid_time [OF invalid_examples(2), of Download_ilias_data TimeScheduler]
  by simp

section \<open>The driver, task by task\<close>

lemma step_task_reports:
  "step_task pol w now i tk st = (st', r) \<Longrightarrow> \<forall>x \<in> set r. report_task x = i"
  by (auto simp: step_task_def Let_def split: prod.splits if_splits)

lemma fold_check_task:
  assumes "fold (check_task pol w now) js (s, reps) = (s', reps')" "distinct js"
  shows "tasks s' = tasks s \<and> running s' = running s \<and>
     (next_due s' i, in_flight_until s' i, pending s' i) =
       (if i \<in> set js
        then fst (step_task pol w now i (tasks s ! i)
                    (next_due s i, in_flight_until s i, pending s i))
        else (next_due s i, in_flight_until s i, pending s i)) \<and>
     filter (\<lambda>r. report_task r = i) reps' =
       filter (\<lambda>r. report_task r = i) reps @
       (if i \<in> set js
        then snd (step_task pol w now i (tasks s ! i)
                    (next_due s i, in_flight_until s i, pending s i))
        else [])"
  using assms
proof (induction js arbitrary: s reps)
  case Nil
  then show ?case by simp
next
  case (Cons j js)
  obtain nd busy pend r where st:
    "step_task pol w now j (tasks s ! j) (next_due s j, in_flight_until s j, pending s j)
      = ((nd, busy, pend), r)"
    by (metis surj_pair)
  let ?s1 = "s\<lparr>next_due := (next_due s)(j := nd),
               in_flight_until := (in_flight_until s)(j := busy),
               pending := (pending s)(j := pend)\<rparr>"
  have c: "check_task pol w now j (s, reps) = (?s1, reps @ r)"
    using st by (simp add: check_task_def)
  have rj: "\<forall>x \<in> set r. report_task x = j"
    using st by (rule step_task_reports)
  from Cons.prems c have f: "fold (check_task pol w now) js (?s1, reps @ r) = (s', reps')"
    by simp
  from Cons.prems have d: "distinct js" "j \<notin> set js" by simp_all
  note IH = Cons.IH [OF f d(1)]
  show ?case
  proof (cases "i = j")
    case True
    then have "i \<notin> set js" using d by simp
    with IH True st rj show ?thesis
      by (simp add: filter_id_conv)
  next
    case False
    then have "filter (\<lambda>r. report_task r = i) r = []"
      using rj by (auto simp: filter_empty_conv)
    with IH False show ?thesis by simp
  qed
qed

lemma poll_task:
  assumes "poll pol w now s = (s', reps)" "running s" "i < length (tasks s)"
  shows "tasks s' = tasks s \<and> running s' \<and>
     step_task pol w now i (tasks s ! i) (next_due s i, in_flight_until s i, pending s i) =
       ((next_due s' i, in_flight_until s' i, pending s' i),
        filter (\<lambda>r. report_task r = i) reps)"
proof -
  from assms have f: "fold (check_task pol w now) [0..<length (tasks s)] (s, []) = (s', reps)"
    by (simp add: poll_def)
  from fold_check_task [OF f, of i] assms(2,3) show ?thesis
    by (simp add: prod_eq_iff)
qed

lemma run_driver_task:
  assumes "run_driver pol w polls s = (s', reps)" "running s" "i < length (tasks s)"
  shows "tasks s' = tasks s \<and> running s' \<and>
     task_run pol w i (tasks s ! i) polls (next_due s i, in_flight_until s i, pending s i) =
       ((next_due s' i, in_flight_until s' i, pending s' i),
        filter (\<lambda>r. report_task r = i) reps)"
  using assms
proof (induction polls arbitrary: s s' reps)
  case Nil
  then show ?case by simp
next
  case (Cons now later)
  obtain s1 r1 where p: "poll pol w now s = (s1, r1)" by (cases "poll pol w now s")
  obtain s2 r2 where r: "run_driver pol w later s1 = (s2, r2)"
    by (cases "run_driver pol w later s1")
  from Cons.prems p r have e: "s' = s2" "reps = r1 @ r2" by simp_all
  from poll_task [OF p Cons.prems(2,3)] have
    a: "tasks s1 = tasks s" "running s1"
      "step_task pol w now i (tasks s ! i) (next_due s i, in_flight_until s i, pending s i) =
       ((next_due s1 i, in_flight_until s1 i, pending s1 i),
        filter (\<lambda>r. report_task r = i) r1)"
    by simp_all
  from Cons.IH [OF r a(2)] Cons.prems(3) a(1) have
    b: "tasks s2 = tasks s1" "running s2"
      "task_run pol w i (tasks s ! i) later (next_due s1 i, in_flight_until s1 i, pending s1 i) =
       ((next_due s2 i, in_flight_until s2 i, pending s2 i),
        filter (\<lambda>r. report_task r = i) r2)"
    by simp_all
  show ?case
    using a b e by simp
qed

lemma fire_times_filter:
  "fire_times i (filter (\<lambda>r. report_task r = i) reps) = fire_times i reps"
  by (induction i reps rule: fire_times.induct) auto

lemma fire_times_set: "t \<in> set (fire_times i reps) \<longleftrightarrow> Fired i t \<in> set reps"
  by (induction i reps rule: fire_times.induct) auto

lemma fire_times_append: "fire_times i (xs @ ys) = fire_times i xs @ fire_times i ys"
  by (induction i xs rule: fire_times.induct) auto

lemma task_run_Cons_snd:
  "step_task pol w now i tk st = (st1, r1) \<Longrightarrow>
     snd (task_run pol w i tk (now # later) st) = r1 @ snd (task_run pol w i tk later st1)"
  by (simp split: prod.splits)

lemma wakeups_tail: "wakeups g (p # ps) \<Longrightarrow> wakeups g ps"
  by (cases ps) simp_all

lemma wakeups_increasing: "wakeups g (p # ps) \<Longrightarrow> q \<in> set ps \<Longrightarrow> p < q"
proof (induction ps arbitrary: p)
  case Nil
  then show ?case by simp
next
  case (Cons a ps)
  then show ?case by fastforce
qed

section \<open>Due instants\<close>

lemma due_second_bound: "valid_time (timeOfDay tk) \<Longrightarrow> due_second tk \<le> 86340"
  by (auto simp: valid_time_def due_second_def split: prod.splits)

lemma at_or_after_ge: "now \<le> at_or_after tk now"
proof (cases "now mod 86400 \<le> due_second tk")
  case True
  have "now = now div 86400 * 86400 + now mod 86400" by simp
  with True have "now \<le> now div 86400 * 86400 + due_second tk" by linarith
  with True show ?thesis by (simp add: at_or_after_def)
next
  case False
  have "now = now div 86400 * 86400 + now mod 86400" "now mod 86400 < 86400" by simp_all
  then have "now \<le> now div 86400 * 86400 + 86400 + due_second tk" by linarith
  with False show ?thesis by (simp add: at_or_after_def)
qed

lemma at_or_after_occurrence: "\<exists>d. at_or_after tk now = occurrence tk d"
proof (cases "now mod 86400 \<le> due_second tk")
  case True
  then have "at_or_after tk now = occurrence tk (now div 86400)"
    by (simp add: at_or_after_def occurrence_def)
  then show ?thesis ..
next
  case False
  then have "at_or_after tk now = occurrence tk (now div 86400 + 1)"
    by (simp add: at_or_after_def occurrence_def)
  then show ?thesis ..
qed

lemma at_or_after_least:
  assumes "valid_time (timeOfDay tk)" "now \<le> occurrence tk d"
  shows "at_or_after tk now \<le> occurrence tk d"
proof -
  let ?q = "now div 86400" and ?r = "now mod 86400"
  have b: "due_second tk < 86400"
    using due_second_bound [OF assms(1)] by simp
  have e: "now = ?q * 86400 + ?r" by simp
  show ?thesis
  proof (cases "?r \<le> due_second tk")
    case True
    have "?q \<le> d"
    proof (rule ccontr)
      assume "\<not> ?q \<le> d"
      then have "Suc d \<le> ?q" by simp
      then have "Suc d * 86400 \<le> ?q * 86400" by (rule mult_le_mono1)
      with e b assms(2) show False
        unfolding occurrence_def by simp
    qed
    then have "?q * 86400 \<le> d * 86400" by (rule mult_le_mono1)
    with True show ?thesis
      by (simp add: at_or_after_def occurrence_def)
  next
    case False
    have "Suc ?q \<le> d"
    proof (rule ccontr)
      assume "\<not> Suc ?q \<le> d"
      then have "d \<le> ?q" by simp
      then have "d * 86400 \<le> ?q * 86400" by (rule mult_le_mono1)
      with e False assms(2) show False
        unfolding occurrence_def by linarith
    qed
    then have "Suc ?q * 86400 \<le> d * 86400" by (rule mult_le_mono1)
    with False show ?thesis
      by (simp add: at_or_after_def occurrence_def)
  qed
qed

lemma next_after_gt: "now < next_after tk now"
  using at_or_after_ge [of "Suc now" tk] by (simp add: next_after_def)

lemma next_after_occurrence: "\<exists>d. next_after tk now = occurrence tk d"
  by (simp add: next_after_def at_or_after_occurrence)

lemma next_after_least:
  "valid_time (timeOfDay tk) \<Longrightarrow> now < occurrence tk d \<Longrightarrow> next_after tk now \<le> occurrence tk d"
  by (simp add: next_after_def at_or_after_least)

text \<open>The four ways a check of a task can go.\<close>

lemma step_task_cases:
  fixes nd :: "nat option" and tk :: "'a task" and now :: nat
  defines "due \<equiv> (case nd of None \<Rightarrow> at_or_after tk now | Some n \<Rightarrow> n)"
  obtains
    (fire_due) "due \<le> now" "\<not> now < busy"
      "step_task pol w now i tk (nd, busy, pend) =
         ((Some (next_after tk now), now + duration w i now, False),
          Fired i now # (if raises w i now then [Failed i now] else []))"
  | (overlap) pend' r where "due \<le> now" "now < busy"
      "step_task pol w now i tk (nd, busy, pend) = ((Some (next_after tk now), busy, pend'), [r])"
      "r = Skipped i now \<or> r = Deferred i now"
  | (fire_pending) "now < due" "pend" "\<not> now < busy"
      "step_task pol w now i tk (nd, busy, pend) =
         ((Some due, now + duration w i now, False),
          Fired i now # (if raises w i now then [Failed i now] else []))"
  | (idle) "now < due"
      "step_task pol w now i tk (nd, busy, pend) = ((Some due, busy, pend), [])"
proof (cases "due \<le> now")
  case True
  show ?thesis
  proof (cases "now < busy")
    case False
    with True have "step_task pol w now i tk (nd, busy, pend) =
         ((Some (next_after tk now), now + duration w i now, False),
          Fired i now # (if raises w i now then [Failed i now] else []))"
      by (simp add: step_task_def due_def Let_def)
    with True False show ?thesis by (rule fire_due)
  next
    case busy: True
    show ?thesis
    proof (cases "pol = Queue_one \<and> \<not> pend")
      case True
      with \<open>due \<le> now\<close> busy have "step_task pol w now i tk (nd, busy, pend) =
          ((Some (next_after tk now), busy, True), [Deferred i now])"
        by (simp add: step_task_def due_def Let_def)
      with \<open>due \<le> now\<close> busy show ?thesis by (rule overlap) simp
    next
      case False
      with \<open>due \<le> now\<close> busy have "step_task pol w now i tk (nd, busy, pend) =
          ((Some (next_after tk now), busy, pend), [Skipped i now])"
        by (auto simp: step_task_def due_def Let_def)
      with \<open>due \<le> now\<close> busy show ?thesis by (rule overlap) simp
    qed
  qed
next
  case False
  then have n: "now < due" by simp
  show ?thesis
  proof (cases "pend \<and> \<not> now < busy")
    case True
    with False have "step_task pol w now i tk (nd, busy, pend) =
         ((Some due, now + duration w i now, False),
          Fired i now # (if raises w i now then [Failed i now] else []))"
      by (simp add: step_task_def due_def Let_def)
    with n True show ?thesis by (intro fire_pending) simp_all
  next
    case idle': False
    with False have "step_task pol w now i tk (nd, busy, pend) = ((Some due, busy, pend), [])"
      by (auto simp: step_task_def due_def Let_def)
    with n show ?thesis by (rule idle)
  qed
qed

lemma fire_times_fired:
  "fire_times i (Fired i now # (if c then [Failed i now] else [])) = [now]"
  by simp

lemma fired_first_no_overlap:
  fixes rest :: "nat list" and dur :: "nat \<Rightarrow> nat"
  assumes a: "\<forall>t \<in> set rest. now + dur now \<le> t"
    and b: "\<forall>f \<in> set rest. \<forall>t \<in> set rest. f < t \<longrightarrow> f + dur f \<le> t"
    and c: "busy \<le> now"
  shows "(\<forall>t \<in> set (now # rest). busy \<le> t) \<and>
     (\<forall>f \<in> set (now # rest). \<forall>t \<in> set (now # rest). f < t \<longrightarrow> f + dur f \<le> t)"
proof (intro conjI ballI impI)
  fix t assume "t \<in> set (now # rest)"
  then have "t = now \<or> t \<in> set rest" by simp
  then show "busy \<le> t"
  proof
    assume "t = now" with c show ?thesis by simp
  next
    assume "t \<in> set rest"
    with a have "now + dur now \<le> t" by blast
    with c show ?thesis by simp
  qed
next
  fix f t assume f: "f \<in> set (now # rest)" and t: "t \<in> set (now # rest)" and lt: "f < t"
  from f have "f = now \<or> f \<in> set rest" by simp
  then show "f + dur f \<le> t"
  proof
    assume fn: "f = now"
    with t lt have "t \<in> set rest" by auto
    with a fn show ?thesis by blast
  next
    assume fr: "f \<in> set rest"
    from t have "t = now \<or> t \<in> set rest" by simp
    then show ?thesis
    proof
      assume "t = now"
      moreover from a fr have "now + dur now \<le> f" by blast
      ultimately show ?thesis using lt by simp
    next
      assume "t \<in> set rest"
      with b fr lt show ?thesis by blast
    qed
  qed
qed

text \<open>No two invocations of a task run at once.\<close>

lemma task_run_no_overlap:
  "(\<forall>t \<in> set (fire_times i (snd (task_run pol w i tk polls (nd, busy, pend)))). busy \<le> t) \<and>
   (\<forall>f \<in> set (fire_times i (snd (task_run pol w i tk polls (nd, busy, pend)))).
      \<forall>t \<in> set (fire_times i (snd (task_run pol w i tk polls (nd, busy, pend)))).
        f < t \<longrightarrow> f + duration w i f \<le> t)"
proof (induction polls arbitrary: nd busy pend)
  case Nil
  then show ?case by simp
next
  case (Cons now later)
  show ?case
  proof (cases rule: step_task_cases [where nd=nd and tk=tk and now=now and busy=busy and pol=pol and w=w and i=i and pend=pend])
    case fire_due
    let ?rest = "fire_times i (snd (task_run pol w i tk later
        (Some (next_after tk now), now + duration w i now, False)))"
    have ft: "fire_times i (snd (task_run pol w i tk (now # later) (nd, busy, pend))) = now # ?rest"
      unfolding task_run_Cons_snd [OF fire_due(3)] fire_times_append fire_times_fired by simp
    from Cons.IH [of "Some (next_after tk now)" "now + duration w i now" False]
    have IH: "\<forall>t \<in> set ?rest. now + duration w i now \<le> t"
      "\<forall>f \<in> set ?rest. \<forall>t \<in> set ?rest. f < t \<longrightarrow> f + duration w i f \<le> t"
      by blast+
    from fire_due(2) have "busy \<le> now" by simp
    from fired_first_no_overlap [OF IH this] show ?thesis
      unfolding ft .
  next
    case (overlap pend' r)
    have "fire_times i [r] = []" using overlap(4) by auto
    then have ft: "fire_times i (snd (task_run pol w i tk (now # later) (nd, busy, pend))) =
        fire_times i (snd (task_run pol w i tk later (Some (next_after tk now), busy, pend')))"
      unfolding task_run_Cons_snd [OF overlap(3)] fire_times_append by simp
    show ?thesis
      unfolding ft by (rule Cons.IH)
  next
    case fire_pending
    let ?due = "case nd of None \<Rightarrow> at_or_after tk now | Some n \<Rightarrow> n"
    let ?rest = "fire_times i (snd (task_run pol w i tk later
        (Some ?due, now + duration w i now, False)))"
    have ft: "fire_times i (snd (task_run pol w i tk (now # later) (nd, busy, pend))) = now # ?rest"
      unfolding task_run_Cons_snd [OF fire_pending(4)] fire_times_append fire_times_fired by simp
    from Cons.IH [of "Some ?due" "now + duration w i now" False]
    have IH: "\<forall>t \<in> set ?rest. now + duration w i now \<le> t"
      "\<forall>f \<in> set ?rest. \<forall>t \<in> set ?rest. f < t \<longrightarrow> f + duration w i f \<le> t"
      by blast+
    from fire_pending(3) have "busy \<le> now" by simp
    from fired_first_no_overlap [OF IH this] show ?thesis
      unfolding ft .
  next
    case idle
    have ft: "fire_times i (snd (task_run pol w i tk (now # later) (nd, busy, pend))) =
        fire_times i (snd (task_run pol w i tk later
          (Some (case nd of None \<Rightarrow> at_or_after tk now | Some n \<Rightarrow> n), busy, pend)))"
      unfolding task_run_Cons_snd [OF idle(2)] fire_times_append by simp
    show ?thesis
      unfolding ft by (rule Cons.IH)
  qed
qed

text \<open>
  Every firing answers an occurrence that no earlier firing answered: with \<open>L\<close> one
  more than the time of the last firing (or the time the driver began), every firing
  comes at or after an occurrence that is not before \<open>L\<close>.
\<close>

lemma fired_first_occurrences:
  fixes rest :: "nat list" and occ :: "nat \<Rightarrow> nat"
  assumes a: "\<forall>t \<in> set rest. \<exists>d. Suc now \<le> occ d \<and> occ d \<le> t"
    and b: "\<forall>f \<in> set rest. \<forall>t \<in> set rest. f < t \<longrightarrow> (\<exists>d. f < occ d \<and> occ d \<le> t)"
    and c: "L \<le> occ d0" "occ d0 \<le> now"
  shows "(\<forall>t \<in> set (now # rest). \<exists>d. L \<le> occ d \<and> occ d \<le> t) \<and>
     (\<forall>f \<in> set (now # rest). \<forall>t \<in> set (now # rest). f < t \<longrightarrow> (\<exists>d. f < occ d \<and> occ d \<le> t))"
proof (intro conjI ballI impI)
  fix t assume "t \<in> set (now # rest)"
  then have "t = now \<or> t \<in> set rest" by simp
  then show "\<exists>d. L \<le> occ d \<and> occ d \<le> t"
  proof
    assume "t = now" with c show ?thesis by blast
  next
    assume "t \<in> set rest"
    with a obtain d where "Suc now \<le> occ d" "occ d \<le> t" by blast
    moreover from c have "L \<le> Suc now" by simp
    ultimately have "L \<le> occ d \<and> occ d \<le> t" by simp
    then show ?thesis ..
  qed
next
  fix f t assume f: "f \<in> set (now # rest)" and t: "t \<in> set (now # rest)" and lt: "f < t"
  from f have "f = now \<or> f \<in> set rest" by simp
  then show "\<exists>d. f < occ d \<and> occ d \<le> t"
  proof
    assume fn: "f = now"
    with t lt have "t \<in> set rest" by auto
    with a obtain d where "Suc now \<le> occ d" "occ d \<le> t" by blast
    with fn have "f < occ d \<and> occ d \<le> t" by simp
    then show ?thesis ..
  next
    assume fr: "f \<in> set rest"
    from t have "t = now \<or> t \<in> set rest" by simp
    then show ?thesis
    proof
      assume tn: "t = now"
      from a fr obtain d where "Suc now \<le> occ d" "occ d \<le> f" by blast
      with tn lt show ?thesis by simp
    next
      assume "t \<in> set rest"
      with b fr lt show ?thesis by blast
    qed
  qed
qed

lemma task_run_occurrences:
  assumes "wakeups g polls"
    and "case nd of None \<Rightarrow> (\<forall>p \<in> set polls. L \<le> p)
         | Some n \<Rightarrow> L \<le> n \<and> (\<exists>d. n = occurrence tk d)"
    and "pend \<longrightarrow> (\<exists>d. L \<le> occurrence tk d \<and> (\<forall>p \<in> set polls. occurrence tk d \<le> p))"
  shows "(\<forall>t \<in> set (fire_times i (snd (task_run pol w i tk polls (nd, busy, pend)))).
            \<exists>d. L \<le> occurrence tk d \<and> occurrence tk d \<le> t) \<and>
         (\<forall>f \<in> set (fire_times i (snd (task_run pol w i tk polls (nd, busy, pend)))).
            \<forall>t \<in> set (fire_times i (snd (task_run pol w i tk polls (nd, busy, pend)))).
              f < t \<longrightarrow> (\<exists>d. f < occurrence tk d \<and> occurrence tk d \<le> t))"
  using assms
proof (induction polls arbitrary: nd busy pend L)
  case Nil
  then show ?case by simp
next
  case (Cons now later)
  let ?due = "case nd of None \<Rightarrow> at_or_after tk now | Some n \<Rightarrow> n"
  have w: "wakeups g later" using Cons.prems(1) by (rule wakeups_tail)
  have inc: "\<forall>p \<in> set later. now < p"
    using Cons.prems(1) wakeups_increasing by blast
  have due: "L \<le> ?due" "\<exists>d. ?due = occurrence tk d"
    using Cons.prems(2) at_or_after_ge [of now tk] at_or_after_occurrence [of tk now]
    by (auto split: option.splits intro: order_trans)
  then obtain d0 where d0: "?due = occurrence tk d0" by blast
  have na: "\<exists>d. next_after tk now = occurrence tk d" by (rule next_after_occurrence)
  show ?case
  proof (cases rule: step_task_cases
      [where nd=nd and tk=tk and now=now and busy=busy and pol=pol and w=w and i=i and pend=pend])
    case fire_due
    let ?st = "(Some (next_after tk now), now + duration w i now, False)"
    let ?rest = "fire_times i (snd (task_run pol w i tk later ?st))"
    have ft: "fire_times i (snd (task_run pol w i tk (now # later) (nd, busy, pend))) = now # ?rest"
      unfolding task_run_Cons_snd [OF fire_due(3)] fire_times_append fire_times_fired by simp
    have "case Some (next_after tk now) of None \<Rightarrow> (\<forall>p \<in> set later. Suc now \<le> p)
         | Some n \<Rightarrow> Suc now \<le> n \<and> (\<exists>d. n = occurrence tk d)"
      using next_after_gt [of now tk] na by simp
    from Cons.IH [where busy = "now + duration w i now" and pend = False, OF w this] have IH:
      "\<forall>t \<in> set ?rest. \<exists>d. Suc now \<le> occurrence tk d \<and> occurrence tk d \<le> t"
      "\<forall>f \<in> set ?rest. \<forall>t \<in> set ?rest. f < t \<longrightarrow> (\<exists>d. f < occurrence tk d \<and> occurrence tk d \<le> t)"
      by (simp_all del: task_run.simps)
    have c: "L \<le> occurrence tk d0" "occurrence tk d0 \<le> now"
      using due(1) fire_due(1) d0 by simp_all
    from fired_first_occurrences [OF IH c] show ?thesis
      unfolding ft .
  next
    case (overlap pend' r)
    have "fire_times i [r] = []" using overlap(4) by auto
    then have ft: "fire_times i (snd (task_run pol w i tk (now # later) (nd, busy, pend))) =
        fire_times i (snd (task_run pol w i tk later (Some (next_after tk now), busy, pend')))"
      unfolding task_run_Cons_snd [OF overlap(3)] fire_times_append by simp
    have h1: "case Some (next_after tk now) of None \<Rightarrow> (\<forall>p \<in> set later. L \<le> p)
         | Some n \<Rightarrow> L \<le> n \<and> (\<exists>d. n = occurrence tk d)"
      using next_after_gt [of now tk] na due(1) overlap(1) by simp
    have "L \<le> occurrence tk d0 \<and> (\<forall>p \<in> set later. occurrence tk d0 \<le> p)"
      using due(1) d0 overlap(1) inc by auto
    then have h3: "pend' \<longrightarrow> (\<exists>d. L \<le> occurrence tk d \<and> (\<forall>p \<in> set later. occurrence tk d \<le> p))"
      by blast
    show ?thesis
      unfolding ft by (rule Cons.IH [OF w h1 h3])
  next
    case fire_pending
    let ?st = "(Some ?due, now + duration w i now, False)"
    let ?rest = "fire_times i (snd (task_run pol w i tk later ?st))"
    have ft: "fire_times i (snd (task_run pol w i tk (now # later) (nd, busy, pend))) = now # ?rest"
      unfolding task_run_Cons_snd [OF fire_pending(4)] fire_times_append fire_times_fired by simp
    have "case Some ?due of None \<Rightarrow> (\<forall>p \<in> set later. Suc now \<le> p)
         | Some n \<Rightarrow> Suc now \<le> n \<and> (\<exists>d. n = occurrence tk d)"
      using fire_pending(1) due(2) by simp
    from Cons.IH [where busy = "now + duration w i now" and pend = False, OF w this] have IH:
      "\<forall>t \<in> set ?rest. \<exists>d. Suc now \<le> occurrence tk d \<and> occurrence tk d \<le> t"
      "\<forall>f \<in> set ?rest. \<forall>t \<in> set ?rest. f < t \<longrightarrow> (\<exists>d. f < occurrence tk d \<and> occurrence tk d \<le> t)"
      by (simp_all del: task_run.simps)
    from Cons.prems(3) fire_pending(2) obtain d1 where
      c: "L \<le> occurrence tk d1" "occurrence tk d1 \<le> now"
      by auto
    from fired_first_occurrences [OF IH c] show ?thesis
      unfolding ft .
  next
    case idle
    have ft: "fire_times i (snd (task_run pol w i tk (now # later) (nd, busy, pend))) =
        fire_times i (snd (task_run pol w i tk later (Some ?due, busy, pend)))"
      unfolding task_run_Cons_snd [OF idle(2)] fire_times_append by simp
    have h1: "case Some ?due of None \<Rightarrow> (\<forall>p \<in> set later. L \<le> p)
         | Some n \<Rightarrow> L \<le> n \<and> (\<exists>d. n = occurrence tk d)"
      using due by simp
    have h3: "pend \<longrightarrow> (\<exists>d. L \<le> occurrence tk d \<and> (\<forall>p \<in> set later. occurrence tk d \<le> p))"
      using Cons.prems(3) by auto
    show ?thesis
      unfolding ft by (rule Cons.IH [OF w h1 h3])
  qed
qed

text \<open>
  An occurrence is skipped or deferred only while an earlier invocation of the task is
  still executing. The set \<open>E\<close> holds the firings before the polls at hand.
\<close>

lemma task_run_overlap_justified:
  assumes "wakeups g polls"
    and "busy = 0 \<or> (\<exists>f \<in> E. busy = f + duration w i f \<and> (\<forall>p \<in> set polls. f < p))"
    and "Skipped i t \<in> set (snd (task_run pol w i tk polls (nd, busy, pend))) \<or>
         Deferred i t \<in> set (snd (task_run pol w i tk polls (nd, busy, pend)))"
  shows "\<exists>f. (f \<in> E \<or> Fired i f \<in> set (snd (task_run pol w i tk polls (nd, busy, pend)))) \<and>
           f < t \<and> t < f + duration w i f"
  using assms
proof (induction polls arbitrary: nd busy pend E)
  case Nil
  then show ?case by simp
next
  case (Cons now later)
  let ?due = "case nd of None \<Rightarrow> at_or_after tk now | Some n \<Rightarrow> n"
  have w: "wakeups g later" using Cons.prems(1) by (rule wakeups_tail)
  have inc: "\<forall>p \<in> set later. now < p"
    using Cons.prems(1) wakeups_increasing by blast
  have fired: "busy' = now + duration w i now \<Longrightarrow>
      snd (task_run pol w i tk (now # later) (nd, busy, pend)) =
        (Fired i now # (if raises w i now then [Failed i now] else [])) @
        snd (task_run pol w i tk later (nd', busy', pend')) \<Longrightarrow> ?case" for nd' busy' pend'
  proof -
    assume b: "busy' = now + duration w i now"
      and e: "snd (task_run pol w i tk (now # later) (nd, busy, pend)) =
        (Fired i now # (if raises w i now then [Failed i now] else [])) @
        snd (task_run pol w i tk later (nd', busy', pend'))"
    let ?rest = "snd (task_run pol w i tk later (nd', busy', pend'))"
    from Cons.prems(3) have r: "Skipped i t \<in> set ?rest \<or> Deferred i t \<in> set ?rest"
      unfolding e by (auto split: if_splits)
    have "busy' = 0 \<or> (\<exists>f \<in> insert now E. busy' = f + duration w i f \<and> (\<forall>p \<in> set later. f < p))"
      using b inc by blast
    from Cons.IH [OF w this r] obtain f where
      f: "f \<in> insert now E \<or> Fired i f \<in> set ?rest" "f < t" "t < f + duration w i f"
      by blast
    from f(1) have "f \<in> E \<or> Fired i f \<in> set (snd (task_run pol w i tk (now # later) (nd, busy, pend)))"
      unfolding e by auto
    with f(2,3) show ?case by blast
  qed
  have passed: "\<not> (r = Skipped i t \<or> r = Deferred i t) \<Longrightarrow>
      snd (task_run pol w i tk (now # later) (nd, busy, pend)) =
        rs @ snd (task_run pol w i tk later (nd', busy, pend')) \<Longrightarrow> set rs \<subseteq> {r} \<Longrightarrow> ?case"
    for nd' pend' rs r
  proof -
    assume n: "\<not> (r = Skipped i t \<or> r = Deferred i t)"
      and e: "snd (task_run pol w i tk (now # later) (nd, busy, pend)) =
        rs @ snd (task_run pol w i tk later (nd', busy, pend'))"
      and s: "set rs \<subseteq> {r}"
    let ?rest = "snd (task_run pol w i tk later (nd', busy, pend'))"
    from Cons.prems(3) n s have r: "Skipped i t \<in> set ?rest \<or> Deferred i t \<in> set ?rest"
      unfolding e by auto
    have "busy = 0 \<or> (\<exists>f \<in> E. busy = f + duration w i f \<and> (\<forall>p \<in> set later. f < p))"
      using Cons.prems(2) by auto
    from Cons.IH [OF w this r] obtain f where
      f: "f \<in> E \<or> Fired i f \<in> set ?rest" "f < t" "t < f + duration w i f"
      by blast
    from f(1) have "f \<in> E \<or> Fired i f \<in> set (snd (task_run pol w i tk (now # later) (nd, busy, pend)))"
      unfolding e by auto
    with f(2,3) show ?case by blast
  qed
  show ?case
  proof (cases rule: step_task_cases
      [where nd=nd and tk=tk and now=now and busy=busy and pol=pol and w=w and i=i and pend=pend])
    case fire_due
    show ?thesis
      by (rule fired [OF refl]) (simp only: task_run_Cons_snd [OF fire_due(3)])
  next
    case (overlap pend' r)
    note e = task_run_Cons_snd [OF overlap(3), of later]
    show ?thesis
    proof (cases "r = Skipped i t \<or> r = Deferred i t")
      case True
      with overlap(4) have tn: "t = now" by auto
      from overlap(2) Cons.prems(2) obtain f where
        "f \<in> E" "busy = f + duration w i f" "f < now"
        by auto
      with overlap(2) tn have "(f \<in> E \<or> Fired i f \<in> set (snd (task_run pol w i tk (now # later) (nd, busy, pend)))) \<and>
           f < t \<and> t < f + duration w i f"
        by simp
      then show ?thesis ..
    next
      case False
      show ?thesis
        by (rule passed [OF False e]) simp
    qed
  next
    case fire_pending
    show ?thesis
      by (rule fired [OF refl]) (simp only: task_run_Cons_snd [OF fire_pending(4)])
  next
    case idle
    note e = task_run_Cons_snd [OF idle(2), of later]
    have "\<not> (Fired i t = Skipped i t \<or> Fired i t = Deferred i t)" by simp
    then show ?thesis
      by (rule passed [OF _ e]) simp
  qed
qed

text \<open>
  An occurrence that the wake-ups cover is answered within the granularity: at the first
  wake-up at or after it the task is fired, skipped or deferred.
\<close>

lemma task_run_reaches:
  assumes "valid_time (timeOfDay tk)"
    and "wakeups g (p # ps)"
    and "(case nd of None \<Rightarrow> at_or_after tk p | Some n \<Rightarrow> n) \<le> occurrence tk d"
    and "p < (case nd of None \<Rightarrow> at_or_after tk p | Some n \<Rightarrow> n) + g"
    and "occurrence tk d \<le> last (p # ps)"
  shows "\<exists>t. t \<in> set (p # ps) \<and> (\<forall>q \<in> set (p # ps). q < t \<longrightarrow> q < occurrence tk d) \<and>
           occurrence tk d \<le> t \<and> t < occurrence tk d + g \<and>
           (Fired i t \<in> set (snd (task_run pol w i tk (p # ps) (nd, busy, pend))) \<or>
            Skipped i t \<in> set (snd (task_run pol w i tk (p # ps) (nd, busy, pend))) \<or>
            Deferred i t \<in> set (snd (task_run pol w i tk (p # ps) (nd, busy, pend))))"
  using assms(2-)
proof (induction ps arbitrary: p nd busy pend)
  case Nil
  let ?due = "case nd of None \<Rightarrow> at_or_after tk p | Some n \<Rightarrow> n"
  from Nil.prems have o: "?due \<le> p" "occurrence tk d \<le> p" "p < occurrence tk d + g" by simp_all
  have f: "p \<in> set [p] \<and> (\<forall>q \<in> set [p]. q < p \<longrightarrow> q < occurrence tk d)" by simp
  show ?case
  proof (cases rule: step_task_cases
      [where nd=nd and tk=tk and now=p and busy=busy and pol=pol and w=w and i=i and pend=pend])
    case fire_due
    have "Fired i p \<in> set (snd (task_run pol w i tk [p] (nd, busy, pend)))"
      unfolding task_run_Cons_snd [OF fire_due(3)] by simp
    with o f show ?thesis by blast
  next
    case (overlap pend' r)
    have "r \<in> set (snd (task_run pol w i tk [p] (nd, busy, pend)))"
      unfolding task_run_Cons_snd [OF overlap(3)] by simp
    with overlap(4) o f show ?thesis by blast
  next
    case fire_pending
    with o show ?thesis by simp
  next
    case idle
    with o show ?thesis by simp
  qed
next
  case (Cons q qs)
  let ?due = "case nd of None \<Rightarrow> at_or_after tk p | Some n \<Rightarrow> n"
  let ?occ = "occurrence tk d"
  have w: "wakeups g (q # qs)" using Cons.prems(1) by (rule wakeups_tail)
  have pq: "p < q" "q \<le> p + g" using Cons.prems(1) by simp_all
  have inc: "\<forall>r \<in> set (q # qs). p < r"
    using Cons.prems(1) wakeups_increasing by blast
  have l: "?occ \<le> last (q # qs)" using Cons.prems(4) by simp
  have later: "snd (task_run pol w i tk (p # q # qs) (nd, busy, pend)) =
        rs @ snd (task_run pol w i tk (q # qs) (Some n, busy', pend')) \<Longrightarrow>
      n \<le> ?occ \<Longrightarrow> p < n \<Longrightarrow> ?case" for rs n busy' pend'
  proof -
    assume e: "snd (task_run pol w i tk (p # q # qs) (nd, busy, pend)) =
        rs @ snd (task_run pol w i tk (q # qs) (Some n, busy', pend'))"
      and n: "n \<le> ?occ" "p < n"
    have a: "(case Some n of None \<Rightarrow> at_or_after tk q | Some n \<Rightarrow> n) \<le> ?occ"
      using n by simp
    have b: "q < (case Some n of None \<Rightarrow> at_or_after tk q | Some n \<Rightarrow> n) + g"
      using n pq by simp
    from Cons.IH [OF w a b l, of busy' pend'] obtain t where
      t: "t \<in> set (q # qs)" "\<forall>r \<in> set (q # qs). r < t \<longrightarrow> r < ?occ"
      "?occ \<le> t" "t < ?occ + g"
      "Fired i t \<in> set (snd (task_run pol w i tk (q # qs) (Some n, busy', pend'))) \<or>
       Skipped i t \<in> set (snd (task_run pol w i tk (q # qs) (Some n, busy', pend'))) \<or>
       Deferred i t \<in> set (snd (task_run pol w i tk (q # qs) (Some n, busy', pend')))"
      by blast
    from n have "p < ?occ" by simp
    with t(1,2) have "t \<in> set (p # q # qs)" "\<forall>r \<in> set (p # q # qs). r < t \<longrightarrow> r < ?occ"
      by simp_all
    moreover from t(5) have
       "Fired i t \<in> set (snd (task_run pol w i tk (p # q # qs) (nd, busy, pend))) \<or>
        Skipped i t \<in> set (snd (task_run pol w i tk (p # q # qs) (nd, busy, pend))) \<or>
        Deferred i t \<in> set (snd (task_run pol w i tk (p # q # qs) (nd, busy, pend)))"
      unfolding e by auto
    ultimately show ?case using t(3,4) by blast
  qed
  have now: "?due \<le> p \<Longrightarrow>
      r \<in> set (snd (task_run pol w i tk (p # q # qs) (nd, busy, pend))) \<Longrightarrow>
      r = Fired i p \<or> r = Skipped i p \<or> r = Deferred i p \<Longrightarrow>
      snd (task_run pol w i tk (p # q # qs) (nd, busy, pend)) =
        rs @ snd (task_run pol w i tk (q # qs) (Some (next_after tk p), busy', pend')) \<Longrightarrow> ?case"
    for r rs busy' pend'
  proof -
    assume due: "?due \<le> p"
      and r: "r \<in> set (snd (task_run pol w i tk (p # q # qs) (nd, busy, pend)))"
        "r = Fired i p \<or> r = Skipped i p \<or> r = Deferred i p"
      and e: "snd (task_run pol w i tk (p # q # qs) (nd, busy, pend)) =
        rs @ snd (task_run pol w i tk (q # qs) (Some (next_after tk p), busy', pend'))"
    show ?case
    proof (cases "?occ \<le> p")
      case True
      from Cons.prems(2,3) have "p < ?occ + g" by simp
      moreover have "p \<in> set (p # q # qs)" by simp
      moreover have "\<forall>r \<in> set (p # q # qs). r < p \<longrightarrow> r < ?occ"
        using inc by auto
      ultimately show ?thesis using True r by blast
    next
      case False
      then have "p < ?occ" by simp
      with assms(1) have "next_after tk p \<le> ?occ" by (rule next_after_least)
      with e show ?thesis
        by (rule later) (rule next_after_gt)
    qed
  qed
  show ?case
  proof (cases rule: step_task_cases
      [where nd=nd and tk=tk and now=p and busy=busy and pol=pol and w=w and i=i and pend=pend])
    case fire_due
    note e = task_run_Cons_snd [OF fire_due(3), of "q # qs"]
    have "Fired i p \<in> set (snd (task_run pol w i tk (p # q # qs) (nd, busy, pend)))"
      unfolding e by simp
    from now [OF fire_due(1) this _ e] show ?thesis by simp
  next
    case (overlap pend' r)
    note e = task_run_Cons_snd [OF overlap(3), of "q # qs"]
    have "r \<in> set (snd (task_run pol w i tk (p # q # qs) (nd, busy, pend)))"
      unfolding e by simp
    from now [OF overlap(1) this _ e] overlap(4) show ?thesis by blast
  next
    case fire_pending
    note e = task_run_Cons_snd [OF fire_pending(4), of "q # qs"]
    from e Cons.prems(2) fire_pending(1) show ?thesis
      by (rule later)
  next
    case idle
    note e = task_run_Cons_snd [OF idle(2), of "q # qs"]
    from e Cons.prems(2) idle(1) show ?thesis
      by (rule later)
  qed
qed

section \<open>A raising action\<close>

lemma poll_preserves:
  "poll pol w now s = (s', reps) \<Longrightarrow> tasks s' = tasks s \<and> running s' = running s"
proof (cases "running s")
  case False
  assume "poll pol w now s = (s', reps)"
  with False show ?thesis by (simp add: poll_def)
next
  case True
  assume "poll pol w now s = (s', reps)"
  with True have "fold (check_task pol w now) [0..<length (tasks s)] (s, []) = (s', reps)"
    by (simp add: poll_def)
  from fold_check_task [OF this, of 0] show ?thesis by simp
qed

lemma run_driver_preserves:
  "run_driver pol w polls s = (s', reps) \<Longrightarrow> tasks s' = tasks s \<and> running s' = running s"
proof (induction polls arbitrary: s s' reps)
  case Nil
  then show ?case by simp
next
  case (Cons now later)
  obtain s1 r1 where p: "poll pol w now s = (s1, r1)" by (cases "poll pol w now s")
  obtain s2 r2 where r: "run_driver pol w later s1 = (s2, r2)"
    by (cases "run_driver pol w later s1")
  from Cons.prems p r have "s' = s2" by simp
  with poll_preserves [OF p] Cons.IH [OF r] show ?case by simp
qed

text \<open>Every raising invocation is reported.\<close>

lemma step_task_reported:
  "Fired j t \<in> set (snd (step_task pol w now i tk st)) \<Longrightarrow> raises w j t \<Longrightarrow>
     Failed j t \<in> set (snd (step_task pol w now i tk st))"
  by (auto simp: step_task_def Let_def split: prod.splits if_splits)

lemma fold_check_task_reported:
  assumes "fold (check_task pol w now) js (s, reps) = (s', reps')"
    and "\<forall>j t. Fired j t \<in> set reps \<longrightarrow> raises w j t \<longrightarrow> Failed j t \<in> set reps"
  shows "\<forall>j t. Fired j t \<in> set reps' \<longrightarrow> raises w j t \<longrightarrow> Failed j t \<in> set reps'"
  using assms
proof (induction js arbitrary: s reps)
  case Nil
  then show ?case by simp
next
  case (Cons k js)
  obtain nd busy pend r where st:
    "step_task pol w now k (tasks s ! k) (next_due s k, in_flight_until s k, pending s k)
      = ((nd, busy, pend), r)"
    by (metis surj_pair)
  let ?s1 = "s\<lparr>next_due := (next_due s)(k := nd),
               in_flight_until := (in_flight_until s)(k := busy),
               pending := (pending s)(k := pend)\<rparr>"
  have c: "check_task pol w now k (s, reps) = (?s1, reps @ r)"
    using st by (simp add: check_task_def)
  have "\<forall>j t. Fired j t \<in> set r \<longrightarrow> raises w j t \<longrightarrow> Failed j t \<in> set r"
    using step_task_reported [of _ _ pol w now k "tasks s ! k"
        "(next_due s k, in_flight_until s k, pending s k)"] st
    by simp
  with Cons.prems(2) have
    "\<forall>j t. Fired j t \<in> set (reps @ r) \<longrightarrow> raises w j t \<longrightarrow> Failed j t \<in> set (reps @ r)"
    by auto
  moreover from Cons.prems(1) c have "fold (check_task pol w now) js (?s1, reps @ r) = (s', reps')"
    by simp
  ultimately show ?case using Cons.IH by blast
qed

lemma run_driver_reported:
  "run_driver pol w polls s = (s', reps) \<Longrightarrow> Fired j t \<in> set reps \<Longrightarrow> raises w j t \<Longrightarrow>
     Failed j t \<in> set reps"
proof (induction polls arbitrary: s s' reps)
  case Nil
  then show ?case by simp
next
  case (Cons now later)
  obtain s1 r1 where p: "poll pol w now s = (s1, r1)" by (cases "poll pol w now s")
  obtain s2 r2 where r: "run_driver pol w later s1 = (s2, r2)"
    by (cases "run_driver pol w later s1")
  from Cons.prems(1) p r have e: "reps = r1 @ r2" by simp
  have a: "Fired j t \<in> set r1 \<Longrightarrow> Failed j t \<in> set r1"
  proof (cases "running s")
    case True
    assume f: "Fired j t \<in> set r1"
    from True p have "fold (check_task pol w now) [0..<length (tasks s)] (s, []) = (s1, r1)"
      by (simp add: poll_def)
    from fold_check_task_reported [OF this] f Cons.prems(3) show ?thesis by simp
  next
    case False
    assume "Fired j t \<in> set r1"
    with False p show ?thesis by (simp add: poll_def)
  qed
  from Cons.prems(2) e have "Fired j t \<in> set r1 \<or> Fired j t \<in> set r2" by simp
  then show ?case
    using a Cons.IH [OF r _ Cons.prems(3)] e by auto
qed

text \<open>The driver goes on as if no action had raised.\<close>

lemma step_task_no_raise:
  "step_task pol (w\<lparr>raises := (\<lambda>i t. False)\<rparr>) now i tk st =
     (fst (step_task pol w now i tk st),
      filter (\<lambda>r. \<not> failure r) (snd (step_task pol w now i tk st)))"
  by (simp add: step_task_def Let_def split: prod.splits)

lemma check_task_no_raise:
  "check_task pol w now i (s, reps) = (s1, reps1) \<Longrightarrow>
     check_task pol (w\<lparr>raises := (\<lambda>i t. False)\<rparr>) now i (s, filter (\<lambda>r. \<not> failure r) reps) =
       (s1, filter (\<lambda>r. \<not> failure r) reps1)"
  by (auto simp: check_task_def step_task_no_raise split: prod.splits)

lemma fold_check_task_no_raise:
  "fold (check_task pol w now) js (s, reps) = (s', reps') \<Longrightarrow>
     fold (check_task pol (w\<lparr>raises := (\<lambda>i t. False)\<rparr>) now) js
       (s, filter (\<lambda>r. \<not> failure r) reps) = (s', filter (\<lambda>r. \<not> failure r) reps')"
proof (induction js arbitrary: s reps)
  case Nil
  then show ?case by simp
next
  case (Cons k js)
  obtain s1 reps1 where c: "check_task pol w now k (s, reps) = (s1, reps1)"
    by (cases "check_task pol w now k (s, reps)")
  with Cons.prems have "fold (check_task pol w now) js (s1, reps1) = (s', reps')" by simp
  from Cons.IH [OF this] check_task_no_raise [OF c] show ?case by simp
qed

lemma poll_no_raise:
  "poll pol w now s = (s', reps) \<Longrightarrow>
     poll pol (w\<lparr>raises := (\<lambda>i t. False)\<rparr>) now s = (s', filter (\<lambda>r. \<not> failure r) reps)"
  using fold_check_task_no_raise [of pol w now "[0..<length (tasks s)]" s "[]" s' reps]
  by (auto simp: poll_def split: if_splits)

lemma run_driver_no_raise:
  "run_driver pol w polls s = (s', reps) \<Longrightarrow>
     run_driver pol (w\<lparr>raises := (\<lambda>i t. False)\<rparr>) polls s =
       (s', filter (\<lambda>r. \<not> failure r) reps)"
proof (induction polls arbitrary: s s' reps)
  case Nil
  then show ?case by simp
next
  case (Cons now later)
  obtain s1 r1 where p: "poll pol w now s = (s1, r1)" by (cases "poll pol w now s")
  obtain s2 r2 where r: "run_driver pol w later s1 = (s2, r2)"
    by (cases "run_driver pol w later s1")
  from Cons.prems p r have e: "s' = s2" "reps = r1 @ r2" by simp_all
  from poll_no_raise [OF p] Cons.IH [OF r] e show ?case by simp
qed

text \<open>
  C7. When the action of a task raises during an invocation, the driver catches it and
  reports it (every firing whose action raises is followed by its failure report); the
  driver keeps running and the registry keeps every task; and the scheduler goes on as if
  the action had completed normally: its state after any sequence of wake-ups, and every
  firing, skip and deferral it reports, are those of the run in which no action raises, so
  the next day's occurrence fires exactly as it would have. This holds under either
  overlap policy.
\<close>

theorem raising_action_is_caught:
  assumes "run_driver pol w polls s = (s', reps)"
  shows "tasks s' = tasks s \<and> running s' = running s \<and>
     (\<forall>i t. Fired i t \<in> set reps \<and> raises w i t \<longrightarrow> Failed i t \<in> set reps) \<and>
     run_driver pol (w\<lparr>raises := (\<lambda>i t. False)\<rparr>) polls s =
       (s', filter (\<lambda>r. \<not> failure r) reps)"
  using run_driver_preserves [OF assms] run_driver_reported [OF assms]
    run_driver_no_raise [OF assms] by blast

lemma midnight_facts:
  "tasks midnight_scheduler = [\<lparr>timeOfDay = (0, 0), action = Download_ilias_data\<rparr>]"
  "running midnight_scheduler"
  "next_due midnight_scheduler j = None"
  "in_flight_until midnight_scheduler j = 0"
  "\<not> pending midnight_scheduler j"
  "due_second \<lparr>timeOfDay = (0, 0), action = Download_ilias_data\<rparr> = 0"
  "valid_time (timeOfDay \<lparr>timeOfDay = (0, 0), action = Download_ilias_data\<rparr>)"
  "occurrence \<lparr>timeOfDay = (0, 0), action = Download_ilias_data\<rparr> d = d * 86400"
  by (simp_all add: midnight_scheduler_def due_second_def valid_time_def occurrence_def)

lemma raising_run:
  "snd (run_driver pol raising_actions [0, 86400] midnight_scheduler) =
     [Fired 0 0, Failed 0 0, Fired 0 86400, Failed 0 86400]"
  by (simp add: poll_def check_task_def step_task_def at_or_after_def next_after_def
        midnight_scheduler_def raising_actions_def due_second_def Let_def split: prod.splits)

theorem raising_action_is_caught_witness:
  "tasks (fst (run_driver Skip_occurrence raising_actions [0, 86400] midnight_scheduler)) =
     tasks midnight_scheduler \<and>
   running (fst (run_driver Skip_occurrence raising_actions [0, 86400] midnight_scheduler)) \<and>
   snd (run_driver Skip_occurrence raising_actions [0, 86400] midnight_scheduler) =
     [Fired 0 0, Failed 0 0, Fired 0 86400, Failed 0 86400] \<and>
   snd (run_driver Skip_occurrence (raising_actions\<lparr>raises := (\<lambda>i t. False)\<rparr>) [0, 86400]
          midnight_scheduler) =
     [Fired 0 0, Fired 0 86400]"
proof -
  obtain s' reps where
    r: "run_driver Skip_occurrence raising_actions [0, 86400] midnight_scheduler = (s', reps)"
    by (cases "run_driver Skip_occurrence raising_actions [0, 86400] midnight_scheduler")
  then have reps: "reps = [Fired 0 0, Failed 0 0, Fired 0 86400, Failed 0 86400]"
    using raising_run [of Skip_occurrence] by simp
  from raising_action_is_caught [OF r] show ?thesis
    using r reps midnight_facts(2) by simp
qed

section \<open>Firing once per occurrence\<close>

lemma wakeups_from_first: "wakeups g polls \<Longrightarrow> p \<in> set polls \<Longrightarrow> hd polls \<le> p"
proof (cases polls)
  case Nil
  assume "p \<in> set polls"
  with Nil show ?thesis by simp
next
  case (Cons q qs)
  assume "wakeups g polls" "p \<in> set polls"
  with Cons wakeups_increasing [of g q qs p] show ?thesis by auto
qed

lemma step_task_fire_times:
  "set (fire_times i (snd (step_task pol w now i tk st))) \<subseteq> {now} \<and>
   distinct (fire_times i (snd (step_task pol w now i tk st)))"
  by (auto simp: step_task_def Let_def split: prod.splits if_splits)

text \<open>A task is fired at wake-up times only, and at none of them twice.\<close>

lemma task_run_fire_times:
  "wakeups g polls \<Longrightarrow>
     set (fire_times i (snd (task_run pol w i tk polls st))) \<subseteq> set polls \<and>
     distinct (fire_times i (snd (task_run pol w i tk polls st)))"
proof (induction polls arbitrary: st)
  case Nil
  then show ?case by simp
next
  case (Cons now later)
  obtain st1 r1 where s: "step_task pol w now i tk st = (st1, r1)"
    by (cases "step_task pol w now i tk st")
  have e: "fire_times i (snd (task_run pol w i tk (now # later) st)) =
      fire_times i r1 @ fire_times i (snd (task_run pol w i tk later st1))"
    unfolding task_run_Cons_snd [OF s] fire_times_append ..
  have a: "set (fire_times i r1) \<subseteq> {now}" "distinct (fire_times i r1)"
    using step_task_fire_times [of i pol w now tk st] s by simp_all
  have w: "wakeups g later" using Cons.prems by (rule wakeups_tail)
  note IH = Cons.IH [OF w, of st1]
  have "now \<notin> set later"
    using wakeups_increasing [OF Cons.prems, of now] by auto
  with IH have "now \<notin> set (fire_times i (snd (task_run pol w i tk later st1)))" by blast
  with a IH show ?case
    unfolding e by auto
qed

text \<open>
  C1, amended. For a started scheduler whose driver wakes at increasing times no more
  than the granularity \<open>g\<close> apart, whatever \<open>g\<close> is and whichever overlap policy the
  scheduler follows (skipping, or queueing one re-invocation), and for every registered
  task with a valid time of day:

  \<^item> at most once: the task is fired at no instant twice, every firing comes at or after
    an occurrence of its time of day that the driver was running for, and between any
    two firings \<open>f < t\<close> lies an occurrence of their own (\<open>f < occurrence \<le> t\<close>), so
    each firing answers an occurrence that no earlier firing answered;
  \<^item> at least once, within the tolerance: for every occurrence between the first and the
    last wake-up, the first wake-up at or after it comes less than \<open>g\<close> seconds after
    it, and at that wake-up the task is fired, or the occurrence is reported as skipped
    or deferred while an earlier invocation of the same task is still executing;
  \<^item> the overlap policy: no invocation of the task starts before the previous one has
    completed. So when that first wake-up falls into an invocation of the task, the
    occurrence is not fired there: it is skipped or deferred.

  When the driver oversleeps several occurrences, the one firing on waking answers them
  all, as the specification asks.
\<close>

theorem fires_once_per_occurrence:
  assumes "0 < g"
    and "running s"
    and "\<forall>j. next_due s j = None \<and> in_flight_until s j = 0 \<and> \<not> pending s j"
    and "i < length (tasks s)" "valid_time (timeOfDay (tasks s ! i))"
    and "wakeups g polls"
    and "run_driver pol w polls s = (s', reps)"
  shows "distinct (fire_times i reps) \<and>
         (\<forall>t. Fired i t \<in> set reps \<longrightarrow>
            (\<exists>d. hd polls \<le> occurrence (tasks s ! i) d \<and> occurrence (tasks s ! i) d \<le> t)) \<and>
         (\<forall>f t. Fired i f \<in> set reps \<and> Fired i t \<in> set reps \<and> f < t \<longrightarrow>
            (\<exists>d. f < occurrence (tasks s ! i) d \<and> occurrence (tasks s ! i) d \<le> t)) \<and>
         (\<forall>d. polls \<noteq> [] \<and> hd polls \<le> occurrence (tasks s ! i) d \<and>
               occurrence (tasks s ! i) d \<le> last polls \<longrightarrow>
            (\<exists>t. t \<in> set polls \<and> (\<forall>p \<in> set polls. p < t \<longrightarrow> p < occurrence (tasks s ! i) d) \<and>
                 occurrence (tasks s ! i) d \<le> t \<and> t < occurrence (tasks s ! i) d + g \<and>
                 (Fired i t \<in> set reps \<or>
                  (Skipped i t \<in> set reps \<or> Deferred i t \<in> set reps) \<and>
                  (\<exists>f. Fired i f \<in> set reps \<and> f < t \<and> t < f + duration w i f)))) \<and>
         (\<forall>f t. Fired i f \<in> set reps \<and> Fired i t \<in> set reps \<and> f < t \<longrightarrow>
            f + duration w i f \<le> t)"
proof -
  let ?tk = "tasks s ! i"
  let ?own = "filter (\<lambda>r. report_task r = i) reps"
  have tr: "snd (task_run pol w i ?tk polls (None, 0, False)) = ?own"
    using run_driver_task [OF assms(7,2,4)] assms(3) by simp
  have own: "Fired i t \<in> set ?own \<longleftrightarrow> Fired i t \<in> set reps"
    "Skipped i t \<in> set ?own \<longleftrightarrow> Skipped i t \<in> set reps"
    "Deferred i t \<in> set ?own \<longleftrightarrow> Deferred i t \<in> set reps" for t
    by simp_all
  have ft: "fire_times i ?own = fire_times i reps"
    by (rule fire_times_filter)
  have fs: "t \<in> set (fire_times i ?own) \<longleftrightarrow> Fired i t \<in> set reps" for t
    unfolding ft by (rule fire_times_set)
  have A: "distinct (fire_times i reps)"
    using task_run_fire_times [OF assms(6), of i pol w ?tk "(None, 0, False)"]
    unfolding tr ft by simp
  have "case None of None \<Rightarrow> (\<forall>p \<in> set polls. hd polls \<le> p)
       | Some n \<Rightarrow> hd polls \<le> n \<and> (\<exists>d. n = occurrence ?tk d)"
    using wakeups_from_first [OF assms(6)] by simp
  from task_run_occurrences [OF assms(6) this, of False i pol w 0]
  have B: "\<forall>t. Fired i t \<in> set reps \<longrightarrow>
            (\<exists>d. hd polls \<le> occurrence ?tk d \<and> occurrence ?tk d \<le> t)"
    and C: "\<forall>f t. Fired i f \<in> set reps \<and> Fired i t \<in> set reps \<and> f < t \<longrightarrow>
            (\<exists>d. f < occurrence ?tk d \<and> occurrence ?tk d \<le> t)"
    unfolding tr ft by (auto simp: fire_times_set)
  have D: "\<exists>t. t \<in> set polls \<and> (\<forall>p \<in> set polls. p < t \<longrightarrow> p < occurrence ?tk d) \<and>
                 occurrence ?tk d \<le> t \<and> t < occurrence ?tk d + g \<and>
                 (Fired i t \<in> set reps \<or>
                  (Skipped i t \<in> set reps \<or> Deferred i t \<in> set reps) \<and>
                  (\<exists>f. Fired i f \<in> set reps \<and> f < t \<and> t < f + duration w i f))"
    if d: "polls \<noteq> []" "hd polls \<le> occurrence ?tk d" "occurrence ?tk d \<le> last polls" for d
  proof -
    from d(1) obtain p ps where ps: "polls = p # ps" by (cases polls) auto
    have a: "(case None of None \<Rightarrow> at_or_after ?tk p | Some n \<Rightarrow> n) \<le> occurrence ?tk d"
      using at_or_after_least [OF assms(5), of p d] d(2) ps by simp
    have b: "p < (case None of None \<Rightarrow> at_or_after ?tk p | Some n \<Rightarrow> n) + g"
      using at_or_after_ge [of p ?tk] assms(1) by simp
    from task_run_reaches [OF assms(5) assms(6) [unfolded ps] a b d(3) [unfolded ps],
        of i pol w 0 False]
    obtain t where t: "occurrence ?tk d \<le> t" "t < occurrence ?tk d + g"
      "Fired i t \<in> set reps \<or> Skipped i t \<in> set reps \<or> Deferred i t \<in> set reps"
      and first: "t \<in> set polls" "\<forall>p \<in> set polls. p < t \<longrightarrow> p < occurrence ?tk d"
      using tr own unfolding ps by auto
    show ?thesis
    proof (cases "Fired i t \<in> set reps")
      case True
      with t first show ?thesis by blast
    next
      case False
      with t(3) have sk: "Skipped i t \<in> set ?own \<or> Deferred i t \<in> set ?own"
        by simp
      have "(0::nat) = 0 \<or> (\<exists>f \<in> {}. 0 = f + duration w i f \<and> (\<forall>p \<in> set polls. f < p))"
        by simp
      from task_run_overlap_justified [OF assms(6) this sk [folded tr]]
      obtain f where "Fired i f \<in> set reps" "f < t" "t < f + duration w i f"
        unfolding tr own by auto
      with t first sk show ?thesis
        unfolding own by blast
    qed
  qed
  have E: "\<forall>f t. Fired i f \<in> set reps \<and> Fired i t \<in> set reps \<and> f < t \<longrightarrow>
            f + duration w i f \<le> t"
    using task_run_no_overlap [of i pol w ?tk polls None 0 False]
    unfolding tr ft by (auto simp: fire_times_set)
  show ?thesis using A B C D E by blast
qed

lemma wakeups_nth:
  "wakeups g ps \<longleftrightarrow>
     (\<forall>k. Suc k < length ps \<longrightarrow> ps ! k < ps ! Suc k \<and> ps ! Suc k \<le> ps ! k + g)"
proof (induction g ps rule: wakeups.induct)
  case (1 g)
  then show ?case by simp
next
  case (2 g p)
  then show ?case by simp
next
  case (3 g p q ps)
  show ?case
  proof
    assume a: "wakeups g (p # q # ps)"
    show "\<forall>k. Suc k < length (p # q # ps) \<longrightarrow>
        (p # q # ps) ! k < (p # q # ps) ! Suc k \<and> (p # q # ps) ! Suc k \<le> (p # q # ps) ! k + g"
    proof (intro allI impI)
      fix k assume k: "Suc k < length (p # q # ps)"
      show "(p # q # ps) ! k < (p # q # ps) ! Suc k \<and> (p # q # ps) ! Suc k \<le> (p # q # ps) ! k + g"
      proof (cases k)
        case 0
        with a show ?thesis by simp
      next
        case (Suc m)
        with a k 3 show ?thesis by simp
      qed
    qed
  next
    assume b: "\<forall>k. Suc k < length (p # q # ps) \<longrightarrow>
        (p # q # ps) ! k < (p # q # ps) ! Suc k \<and> (p # q # ps) ! Suc k \<le> (p # q # ps) ! k + g"
    from b [rule_format, of 0] have h: "p < q" "q \<le> p + g" by simp_all
    have "\<forall>k. Suc k < length (q # ps) \<longrightarrow>
        (q # ps) ! k < (q # ps) ! Suc k \<and> (q # ps) ! Suc k \<le> (q # ps) ! k + g"
    proof (intro allI impI)
      fix k assume "Suc k < length (q # ps)"
      with b [rule_format, of "Suc k"] show
        "(q # ps) ! k < (q # ps) ! Suc k \<and> (q # ps) ! Suc k \<le> (q # ps) ! k + g"
        by simp
    qed
    with 3 h show "wakeups g (p # q # ps)" by simp
  qed
qed

lemma wakeups_minutes: "wakeups 60 (minute_wakeups n)"
  by (simp add: wakeups_nth minute_wakeups_def)

lemma task_run_append:
  "task_run pol w i tk (xs @ ys) st =
     (case task_run pol w i tk xs st of (st1, r1) \<Rightarrow>
        case task_run pol w i tk ys st1 of (st2, r2) \<Rightarrow> (st2, r1 @ r2))"
  by (induction xs arbitrary: st) (simp_all split: prod.splits)

text \<open>Nothing happens at wake-ups before the due instant while nothing queued can start.\<close>

lemma task_run_idle:
  "\<forall>p \<in> set xs. p < n \<and> (pend \<longrightarrow> p < busy) \<Longrightarrow>
     task_run pol w i tk xs (Some n, busy, pend) = ((Some n, busy, pend), [])"
  by (induction xs) (auto simp: step_task_def Let_def)

lemma two_days_split:
  "minute_wakeups 2882 =
     0 # map (\<lambda>k. 60 * k) [1..<1440] @
     86400 # map (\<lambda>k. 60 * k + 86460) [0..<1439] @ [172800, 172860]"
proof -
  have a: "[0..<1441 + 1441] = [0..<1441] @ map (\<lambda>i. i + 1441) [0..<1441]"
    by (simp only: map_add_upt upt_add_eq_append [OF le0])
  have "[0..<Suc 1440] = [0..<1440] @ [1440]"
    by (rule upt_Suc_append) simp
  then have b: "[0..<1441] = [0..<1440] @ [1440]" by simp
  have "[0..<Suc 1439] = [0..<1439] @ [1439]"
    by (rule upt_Suc_append) simp
  then have c: "[0..<1441] = [0..<1439] @ [1439, 1440]"
    using b by simp
  have d: "[0..<1440] = 0 # [1..<1440]"
    by (simp add: upt_rec [of 0])
  have "(2882::nat) = 1441 + 1441" by simp
  then have "minute_wakeups 2882 =
      map (\<lambda>k. 60 * k) [0..<1441] @ map (\<lambda>k. 60 * k + 86460) [0..<1441]"
    unfolding minute_wakeups_def by (simp only: a map_append map_map) (simp add: comp_def)
  also have "map (\<lambda>k. 60 * k) [0..<1441] = 0 # map (\<lambda>k. 60 * k) [1..<1440] @ [86400]"
    unfolding b d by simp
  also have "map (\<lambda>k. 60 * k + 86460) [0..<1441] =
      map (\<lambda>k. 60 * k + 86460) [0..<1439] @ [172800, 172860]"
    unfolding c by simp
  finally show ?thesis by simp
qed

lemma midnight_next:
  "at_or_after \<lparr>timeOfDay = (0, 0), action = Download_ilias_data\<rparr> 0 = 0"
  "next_after \<lparr>timeOfDay = (0, 0), action = Download_ilias_data\<rparr> 0 = 86400"
  "next_after \<lparr>timeOfDay = (0, 0), action = Download_ilias_data\<rparr> 86400 = 172800"
  "next_after \<lparr>timeOfDay = (0, 0), action = Download_ilias_data\<rparr> 172800 = 259200"
  by (simp_all add: at_or_after_def next_after_def due_second_def)

lemma slow_days:
  "snd (task_run pol slow_actions 0 \<lparr>timeOfDay = (0, 0), action = Download_ilias_data\<rparr>
     (minute_wakeups 2882) (None, 0, False)) =
     [Fired 0 0, if pol = Queue_one then Deferred 0 86400 else Skipped 0 86400, Skipped 0 172800]"
proof -
  let ?tk = "\<lparr>timeOfDay = (0, 0), action = Download_ilias_data\<rparr>"
  let ?q = "pol = Queue_one"
  let ?r = "if ?q then Deferred 0 86400 else Skipped 0 86400"
  have mid1: "task_run pol slow_actions 0 ?tk (map (\<lambda>k. 60 * k) [1..<1440]) (Some 86400, 176400, False)
      = ((Some 86400, 176400, False), [])"
    by (rule task_run_idle) auto
  have mid2: "task_run pol slow_actions 0 ?tk (map (\<lambda>k. 60 * k + 86460) [0..<1439]) (Some 172800, 176400, ?q)
      = ((Some 172800, 176400, ?q), [])"
    by (rule task_run_idle) auto
  have s0: "step_task pol slow_actions 0 0 ?tk (None, 0, False) =
      ((Some 86400, 176400, False), [Fired 0 0])"
    by (simp add: step_task_def midnight_next slow_actions_def)
  have s1: "step_task pol slow_actions 86400 0 ?tk (Some 86400, 176400, False) =
      ((Some 172800, 176400, ?q), [?r])"
    by (simp add: step_task_def midnight_next)
  have s2: "step_task pol slow_actions 172800 0 ?tk (Some 172800, 176400, ?q) =
      ((Some 259200, 176400, ?q), [Skipped 0 172800])"
    by (simp add: step_task_def midnight_next)
  have s3: "step_task pol slow_actions 172860 0 ?tk (Some 259200, 176400, ?q) =
      ((Some 259200, 176400, ?q), [])"
    by (simp add: step_task_def)
  have t3: "task_run pol slow_actions 0 ?tk [172800, 172860] (Some 172800, 176400, ?q) =
      ((Some 259200, 176400, ?q), [Skipped 0 172800])"
    by (simp add: s2 s3)
  have t2: "task_run pol slow_actions 0 ?tk
      (map (\<lambda>k. 60 * k + 86460) [0..<1439] @ [172800, 172860]) (Some 172800, 176400, ?q) =
      ((Some 259200, 176400, ?q), [Skipped 0 172800])"
    unfolding task_run_append mid2 prod.case t3 by simp
  have t1: "task_run pol slow_actions 0 ?tk
      (86400 # map (\<lambda>k. 60 * k + 86460) [0..<1439] @ [172800, 172860]) (Some 86400, 176400, False) =
      ((Some 259200, 176400, ?q), [?r, Skipped 0 172800])"
    unfolding task_run.simps s1 prod.case t2 by simp
  have t0: "task_run pol slow_actions 0 ?tk
      (map (\<lambda>k. 60 * k) [1..<1440] @ 86400 # map (\<lambda>k. 60 * k + 86460) [0..<1439] @ [172800, 172860])
      (Some 86400, 176400, False) =
      ((Some 259200, 176400, ?q), [?r, Skipped 0 172800])"
    unfolding task_run_append mid1 prod.case t1 by simp
  have t: "task_run pol slow_actions 0 ?tk
      (0 # map (\<lambda>k. 60 * k) [1..<1440] @ 86400 # map (\<lambda>k. 60 * k + 86460) [0..<1439] @ [172800, 172860])
      (None, 0, False) =
      ((Some 259200, 176400, ?q), [Fired 0 0, ?r, Skipped 0 172800])"
    unfolding task_run.simps(2) [of pol slow_actions 0 ?tk 0] s0 prod.case t0 by simp
  show ?thesis
    unfolding two_days_split t by simp
qed

lemma slow_fire_times:
  "fire_times 0 (snd (run_driver pol slow_actions (minute_wakeups 2882) midnight_scheduler)) = [0]"
proof -
  obtain s' reps where
    r: "run_driver pol slow_actions (minute_wakeups 2882) midnight_scheduler = (s', reps)"
    by (cases "run_driver pol slow_actions (minute_wakeups 2882) midnight_scheduler")
  from run_driver_task [OF r midnight_facts(2), of 0] have
    "snd (task_run pol slow_actions 0 \<lparr>timeOfDay = (0, 0), action = Download_ilias_data\<rparr>
       (minute_wakeups 2882) (None, 0, False)) = filter (\<lambda>r. report_task r = 0) reps"
    by (simp add: midnight_facts)
  then have "filter (\<lambda>r. report_task r = 0) reps =
      [Fired 0 0, if pol = Queue_one then Deferred 0 86400 else Skipped 0 86400, Skipped 0 172800]"
    by (simp only: slow_days)
  then have "fire_times 0 (filter (\<lambda>r. report_task r = 0) reps) = [0]"
    by simp
  then have "fire_times 0 reps = [0]"
    by (simp only: fire_times_filter)
  with r show ?thesis by simp
qed

text \<open>
  The claim C1 as stated, at least once on every day the scheduler runs past the time
  and within the tolerance, fails under both overlap policies the specification allows.
  An action that takes 49 hours is fired at 00:00 of day 0 and is still executing at
  00:00 of day 1 and of day 2; the driver, waking every minute from 00:00 of day 0 to
  00:01 of day 2, starts no second invocation, whether it skips the occurrence of day 1
  or queues a re-invocation for it: the only firing is the one at time 0.
\<close>

theorem overlap_skips_an_occurrence:
  "wakeups 60 (minute_wakeups 2882) \<and>
   hd (minute_wakeups 2882) = 0 \<and> last (minute_wakeups 2882) = 172860 \<and>
   running midnight_scheduler \<and>
   occurrence (tasks midnight_scheduler ! 0) 1 = 86400 \<and>
   fire_times 0 (snd (run_driver Skip_occurrence slow_actions (minute_wakeups 2882)
     midnight_scheduler)) = [0] \<and>
   fire_times 0 (snd (run_driver Queue_one slow_actions (minute_wakeups 2882)
     midnight_scheduler)) = [0]"
proof -
  have "hd (minute_wakeups 2882) = 0" "last (minute_wakeups 2882) = 172860"
    unfolding two_days_split by simp_all
  then show ?thesis
    using wakeups_minutes [of 2882] slow_fire_times midnight_facts(2)
    by (simp add: midnight_facts)
qed

theorem fires_once_per_occurrence_witness:
  "distinct (fire_times 0
     (snd (run_driver Queue_one raising_actions [86340, 86400, 86460] midnight_scheduler))) \<and>
   (Fired 0 86400 \<in> set (snd (run_driver Queue_one raising_actions [86340, 86400, 86460]
       midnight_scheduler)) \<or>
    (Skipped 0 86400 \<in> set (snd (run_driver Queue_one raising_actions [86340, 86400, 86460]
       midnight_scheduler)) \<or>
     Deferred 0 86400 \<in> set (snd (run_driver Queue_one raising_actions [86340, 86400, 86460]
       midnight_scheduler))) \<and>
    (\<exists>f. Fired 0 f \<in> set (snd (run_driver Queue_one raising_actions [86340, 86400, 86460]
       midnight_scheduler)) \<and> f < 86400 \<and> 86400 < f + 10))"
proof -
  obtain s' reps where r:
    "run_driver Queue_one raising_actions [86340, 86400, 86460] midnight_scheduler = (s', reps)"
    by (cases "run_driver Queue_one raising_actions [86340, 86400, 86460] midnight_scheduler")
  have g: "(0::nat) < 60" by simp
  have w: "wakeups 60 [86340, 86400, 86460]" by simp
  have i: "\<forall>j. next_due midnight_scheduler j = None \<and> in_flight_until midnight_scheduler j = 0 \<and>
      \<not> pending midnight_scheduler j"
    by (simp add: midnight_facts)
  have l: "0 < length (tasks midnight_scheduler)"
    "valid_time (timeOfDay (tasks midnight_scheduler ! 0))"
    by (simp_all add: midnight_facts valid_time_def)
  note t = fires_once_per_occurrence [OF g midnight_facts(2) i l w r]
  from t have a: "distinct (fire_times 0 reps)" by blast
  from t have "\<forall>d. [86340, 86400, 86460] \<noteq> [] \<and>
        hd [86340, 86400, 86460] \<le> occurrence (tasks midnight_scheduler ! 0) d \<and>
        occurrence (tasks midnight_scheduler ! 0) d \<le> last [86340, 86400, 86460] \<longrightarrow>
      (\<exists>t. t \<in> set [86340, 86400, 86460] \<and>
        (\<forall>p \<in> set [86340, 86400, 86460]. p < t \<longrightarrow> p < occurrence (tasks midnight_scheduler ! 0) d) \<and>
        occurrence (tasks midnight_scheduler ! 0) d \<le> t \<and>
        t < occurrence (tasks midnight_scheduler ! 0) d + 60 \<and>
        (Fired 0 t \<in> set reps \<or>
         (Skipped 0 t \<in> set reps \<or> Deferred 0 t \<in> set reps) \<and>
         (\<exists>f. Fired 0 f \<in> set reps \<and> f < t \<and> t < f + duration raising_actions 0 f)))"
    by blast
  from this [rule_format, of 1] have "\<exists>t. t \<in> set [86340, 86400, 86460] \<and>
        (\<forall>p \<in> set [86340, 86400, 86460]. p < t \<longrightarrow> p < 86400) \<and> 86400 \<le> t \<and>
        t < 86460 \<and>
        (Fired 0 t \<in> set reps \<or>
         (Skipped 0 t \<in> set reps \<or> Deferred 0 t \<in> set reps) \<and>
         (\<exists>f. Fired 0 f \<in> set reps \<and> f < t \<and> t < f + 10))"
    by (simp add: midnight_facts raising_actions_def)
  then obtain t where first: "\<forall>p \<in> set [86340, 86400, 86460]. p < t \<longrightarrow> p < 86400" "86400 \<le> t"
    and rep: "Fired 0 t \<in> set reps \<or>
         (Skipped 0 t \<in> set reps \<or> Deferred 0 t \<in> set reps) \<and>
         (\<exists>f. Fired 0 f \<in> set reps \<and> f < t \<and> t < f + 10)"
    by blast
  from first have "t = 86400" by simp
  with rep have "Fired 0 86400 \<in> set reps \<or>
         (Skipped 0 86400 \<in> set reps \<or> Deferred 0 86400 \<in> set reps) \<and>
         (\<exists>f. Fired 0 f \<in> set reps \<and> f < 86400 \<and> 86400 < f + 10)"
    by simp
  with a show ?thesis
    using r by simp
qed

text \<open>
  Two runs of the driver as the specification describes them: a scheduler for 00:00
  started at 23:58 fires two minutes later, and a driver that sleeps through three
  occurrences fires once on waking.
\<close>

lemma restart_before_midnight:
  "snd (run_driver pol raising_actions [86280, 86340, 86400] midnight_scheduler) =
     [Fired 0 86400, Failed 0 86400]"
  by (simp add: poll_def check_task_def step_task_def at_or_after_def next_after_def
        midnight_scheduler_def raising_actions_def due_second_def Let_def split: prod.splits)

lemma oversleep_fires_once:
  "snd (run_driver pol raising_actions [0, 60, 300000, 300060] midnight_scheduler) =
     [Fired 0 0, Failed 0 0, Fired 0 300000, Failed 0 300000]"
  by (simp add: poll_def check_task_def step_task_def at_or_after_def next_after_def
        midnight_scheduler_def raising_actions_def due_second_def Let_def split: prod.splits)

end
